theory Spec2Isabelle
  imports Complex_Main "HOL-Library.Sublist"
begin

section \<open>JavaScript values used by multipart.js\<close>

text \<open>
  A JavaScript string is a sequence of UTF-16 code units and a Buffer is a sequence of
  bytes. Both are lists of natural numbers here: the source never does arithmetic on a
  byte or a code unit, it only compares them, so no wrap-around is involved. A byte is
  below 256 and a code unit below 65536; the definitions take a larger number for a byte
  that begins no UTF-8 sequence and for a character that is no white space, digit or
  punctuation, and the properties hold for all lists. An ASCII literal of the source such
  as \<^verbatim>\<open>'--'\<close> is written \<open>js ''--''\<close>.
\<close>

type_synonym jsstring = "nat list"
type_synonym bytes = "nat list"

definition js :: "string \<Rightarrow> nat list" where
  "js s = map of_char s"

definition CR :: nat where "CR = 0x0d"
definition LF :: nat where "LF = 0x0a"

definition CRLF :: bytes where
  "CRLF = [CR, LF]"

subsection \<open>String.prototype.split, trim, indexOf\<close>

text \<open>\<^verbatim>\<open>s.split(c)\<close> for a one-character separator: never the empty array.\<close>

fun split :: "nat \<Rightarrow> jsstring \<Rightarrow> jsstring list" where
  "split c [] = [[]]"
| "split c (x # xs) =
     (if x = c then [] # split c xs
      else (case split c xs of [] \<Rightarrow> [[x]] | y # ys \<Rightarrow> (x # y) # ys))"

text \<open>The code units that \<^verbatim>\<open>trim()\<close> strips: WhiteSpace and LineTerminator of ECMAScript.\<close>

definition is_ws :: "nat \<Rightarrow> bool" where
  "is_ws c = (c = 0x09 \<or> c = 0x0a \<or> c = 0x0b \<or> c = 0x0c \<or> c = 0x0d \<or> c = 0x20
     \<or> c = 0xa0 \<or> c = 0x1680 \<or> (0x2000 \<le> c \<and> c \<le> 0x200a) \<or> c = 0x2028 \<or> c = 0x2029
     \<or> c = 0x202f \<or> c = 0x205f \<or> c = 0x3000 \<or> c = 0xfeff)"

definition trim :: "jsstring \<Rightarrow> jsstring" where
  "trim s = rev (dropWhile is_ws (rev (dropWhile is_ws s)))"

fun starts_with :: "jsstring \<Rightarrow> jsstring \<Rightarrow> bool" where
  "starts_with s [] = True"
| "starts_with [] (c # cs) = False"
| "starts_with (x # xs) (c # cs) = (x = c \<and> starts_with xs cs)"

text \<open>\<^verbatim>\<open>s.indexOf(sub)\<close>: the first position where \<open>sub\<close> occurs, or \<open>-1\<close>.\<close>

fun indexOf :: "jsstring \<Rightarrow> jsstring \<Rightarrow> int" where
  "indexOf [] sub = (if sub = [] then 0 else - 1)"
| "indexOf (x # xs) sub =
     (if starts_with (x # xs) sub then 0
      else (let r = indexOf xs sub in if r < 0 then - 1 else r + 1))"

text \<open>Reading an array element: \<^verbatim>\<open>undefined\<close> (here \<open>None\<close>) out of range.\<close>

definition elem_at :: "'a list \<Rightarrow> nat \<Rightarrow> 'a option" where
  "elem_at xs i = (if i < length xs then Some (xs ! i) else None)"

text \<open>\<^verbatim>\<open>x + ''\<close> for a string or \<^verbatim>\<open>undefined\<close>.\<close>

fun to_str :: "jsstring option \<Rightarrow> jsstring" where
  "to_str None = js ''undefined''"
| "to_str (Some s) = s"

subsection \<open>Buffer.prototype.toString\<close>

text \<open>
  \<^verbatim>\<open>buf.toString()\<close> decodes the bytes as UTF-8 into UTF-16 code units. An ill-formed
  sequence gives U+FFFD, one for each maximal ill-formed prefix, and decoding resumes at the
  offending byte; a code point above U+FFFF gives a surrogate pair.
\<close>

definition utf8_cont :: "nat \<Rightarrow> bool" where
  "utf8_cont c = (0x80 \<le> c \<and> c \<le> 0xbf)"

text \<open>
  A sequence led by \<open>b\<close>, with \<open>bs\<close> after it: the code units it gives and the number of
  bytes of \<open>bs\<close> it takes.
\<close>

definition utf8_2 :: "nat \<Rightarrow> bytes \<Rightarrow> jsstring \<times> nat" where
  "utf8_2 b bs =
     (case bs of
        [] \<Rightarrow> ([0xfffd], 0)
      | c # cs \<Rightarrow>
          if utf8_cont c then ([(b - 0xc0) * 64 + (c - 0x80)], 1) else ([0xfffd], 0))"

definition utf8_3 :: "nat \<Rightarrow> bytes \<Rightarrow> jsstring \<times> nat" where
  "utf8_3 b bs =
     (case bs of
        [] \<Rightarrow> ([0xfffd], 0)
      | c # cs \<Rightarrow>
          if (if b = 0xe0 then 0xa0 else 0x80) \<le> c \<and> c \<le> (if b = 0xed then 0x9f else 0xbf) then
            (case cs of
               [] \<Rightarrow> ([0xfffd], 1)
             | d # ds \<Rightarrow>
                 if utf8_cont d
                 then ([(b - 0xe0) * 4096 + (c - 0x80) * 64 + (d - 0x80)], 2)
                 else ([0xfffd], 1))
          else ([0xfffd], 0))"

definition utf8_4 :: "nat \<Rightarrow> bytes \<Rightarrow> jsstring \<times> nat" where
  "utf8_4 b bs =
     (case bs of
        [] \<Rightarrow> ([0xfffd], 0)
      | c # cs \<Rightarrow>
          if (if b = 0xf0 then 0x90 else 0x80) \<le> c \<and> c \<le> (if b = 0xf4 then 0x8f else 0xbf) then
            (case cs of
               [] \<Rightarrow> ([0xfffd], 1)
             | d # ds \<Rightarrow>
                 if utf8_cont d then
                   (case ds of
                      [] \<Rightarrow> ([0xfffd], 2)
                    | e # es \<Rightarrow>
                        if utf8_cont e then
                          (let cp = (b - 0xf0) * 262144 + (c - 0x80) * 4096
                                      + (d - 0x80) * 64 + (e - 0x80)
                           in ([0xd800 + (cp - 0x10000) div 1024,
                                0xdc00 + (cp - 0x10000) mod 1024], 3))
                        else ([0xfffd], 2))
                 else ([0xfffd], 1))
          else ([0xfffd], 0))"

definition utf8_seq :: "nat \<Rightarrow> bytes \<Rightarrow> jsstring \<times> nat" where
  "utf8_seq b bs =
     (if 0xc2 \<le> b \<and> b \<le> 0xdf then utf8_2 b bs
      else if 0xe0 \<le> b \<and> b \<le> 0xef then utf8_3 b bs
      else if 0xf0 \<le> b \<and> b \<le> 0xf4 then utf8_4 b bs
      else ([0xfffd], 0))"

function utf8_decode :: "bytes \<Rightarrow> jsstring" where
  "utf8_decode [] = []"
| "utf8_decode (b # bs) =
     (if b < 0x80 then b # utf8_decode bs
      else fst (utf8_seq b bs) @ utf8_decode (drop (snd (utf8_seq b bs)) bs))"
  by pat_completeness auto
termination
  by (relation "measure length") auto

definition toString :: "bytes \<Rightarrow> jsstring" where
  "toString buf = utf8_decode buf"

subsection \<open>Array.prototype.slice\<close>

text \<open>\<^verbatim>\<open>xs.slice(0, e)\<close>: a negative \<open>e\<close> counts from the end, and the range is clamped.\<close>

definition slice0 :: "'a list \<Rightarrow> int \<Rightarrow> 'a list" where
  "slice0 xs e =
     (let n = int (length xs);
          k = (if e < 0 then max (n + e) 0 else min e n)
      in take (nat k) xs)"

subsection \<open>Values and objects\<close>

text \<open>
  The values a property of a Part can hold: what \<^verbatim>\<open>JSON.parse\<close> returns, a string, or a
  Buffer. \<open>Num r\<close> stands for the double that the number literal of value \<open>r\<close> rounds to
  (both zeros for \<open>0\<close>). An object is the list of its own properties in creation order,
  which is the order JavaScript enumerates the properties of the Parts built here in;
  nothing below depends on the order inside an object that \<^verbatim>\<open>JSON.parse\<close> returns.
\<close>

datatype jsval =
    Null
  | Bool bool
  | Num rat
  | Str jsstring
  | Arr "jsval list"
  | Obj "(jsstring \<times> jsval) list"
  | Buf bytes

type_synonym object = "(jsstring \<times> jsval) list"

text \<open>
  \<^verbatim>\<open>Object.defineProperty(o, key, {value: v, writable: true, enumerable: true,
  configurable: true})\<close>: a new property is added last, an existing one keeps its place.
\<close>

fun defineProperty :: "object \<Rightarrow> jsstring \<Rightarrow> jsval \<Rightarrow> object" where
  "defineProperty [] key v = [(key, v)]"
| "defineProperty ((k, w) # ps) key v =
     (if k = key then (key, v) # ps else (k, w) # defineProperty ps key v)"

text \<open>\<^verbatim>\<open>o.key\<close> on such an object: \<^verbatim>\<open>undefined\<close> (here \<open>None\<close>) when it has no such property.\<close>

fun get_prop :: "object \<Rightarrow> jsstring \<Rightarrow> jsval option" where
  "get_prop [] key = None"
| "get_prop ((k, w) # ps) key = (if k = key then Some w else get_prop ps key)"

text \<open>
  The truth value of a value in a condition. A number literal whose magnitude is at most
  \<open>1 / 2 ^ 1075\<close> rounds to the double zero.
\<close>

fun truthy :: "jsval \<Rightarrow> bool" where
  "truthy Null = False"
| "truthy (Bool b) = b"
| "truthy (Num r) = (\<bar>r\<bar> > 1 / 2 ^ 1075)"
| "truthy (Str s) = (s \<noteq> [])"
| "truthy (Arr vs) = True"
| "truthy (Obj ps) = True"
| "truthy (Buf bs) = True"

subsection \<open>JSON.parse\<close>

definition json_ws :: "nat \<Rightarrow> bool" where
  "json_ws c = (c = 0x09 \<or> c = 0x0a \<or> c = 0x0d \<or> c = 0x20)"

definition skip_ws :: "jsstring \<Rightarrow> jsstring" where
  "skip_ws s = dropWhile json_ws s"

definition is_digit :: "nat \<Rightarrow> bool" where
  "is_digit c = (0x30 \<le> c \<and> c \<le> 0x39)"

definition hex_digit :: "nat \<Rightarrow> nat option" where
  "hex_digit c =
     (if 0x30 \<le> c \<and> c \<le> 0x39 then Some (c - 0x30)
      else if 0x41 \<le> c \<and> c \<le> 0x46 then Some (c - 0x41 + 10)
      else if 0x61 \<le> c \<and> c \<le> 0x66 then Some (c - 0x61 + 10)
      else None)"

definition hex4 :: "nat \<Rightarrow> nat \<Rightarrow> nat \<Rightarrow> nat \<Rightarrow> nat option" where
  "hex4 a b c d =
     (case (hex_digit a, hex_digit b, hex_digit c, hex_digit d) of
        (Some x, Some y, Some z, Some w) \<Rightarrow> Some (((x * 16 + y) * 16 + z) * 16 + w)
      | _ \<Rightarrow> None)"

text \<open>The character after a backslash, other than \<open>u\<close>.\<close>

definition json_escape :: "nat \<Rightarrow> nat option" where
  "json_escape e =
     (if e = 0x22 then Some 0x22
      else if e = 0x5c then Some 0x5c
      else if e = 0x2f then Some 0x2f
      else if e = 0x62 then Some 0x08
      else if e = 0x66 then Some 0x0c
      else if e = 0x6e then Some 0x0a
      else if e = 0x72 then Some 0x0d
      else if e = 0x74 then Some 0x09
      else None)"

text \<open>
  The characters of a string literal after its opening quote, up to the closing quote:
  the string denoted and the rest of the text.
\<close>

fun json_chars :: "jsstring \<Rightarrow> (jsstring \<times> jsstring) option" where
  "json_chars [] = None"
| "json_chars (c # cs) =
     (if c = 0x22 then Some ([], cs)
      else if c = 0x5c then
        (case cs of
           [] \<Rightarrow> None
         | e # es \<Rightarrow>
             if e = 0x75 then
               (case es of
                  h1 # h2 # h3 # h4 # r \<Rightarrow>
                    (case hex4 h1 h2 h3 h4 of
                       None \<Rightarrow> None
                     | Some u \<Rightarrow>
                         (case json_chars r of
                            None \<Rightarrow> None
                          | Some (s, r') \<Rightarrow> Some (u # s, r')))
                | _ \<Rightarrow> None)
             else
               (case json_escape e of
                  None \<Rightarrow> None
                | Some u \<Rightarrow>
                    (case json_chars es of
                       None \<Rightarrow> None
                     | Some (s, r') \<Rightarrow> Some (u # s, r'))))
      else if c < 0x20 then None
      else (case json_chars cs of
              None \<Rightarrow> None
            | Some (s, r') \<Rightarrow> Some (c # s, r')))"

text \<open>The value of a run of decimal digits.\<close>

definition digits_val :: "jsstring \<Rightarrow> nat" where
  "digits_val ds = foldl (\<lambda>n d. 10 * n + (d - 0x30)) 0 ds"

text \<open>
  A number literal at the start of the text: an optional minus, \<open>0\<close> or a run of digits
  not starting with \<open>0\<close>, an optional fraction and an optional exponent, each with at least
  one digit.
\<close>

definition json_exponent :: "jsstring \<Rightarrow> (int \<times> jsstring) option" where
  "json_exponent s =
     (case s of
        [] \<Rightarrow> Some (0, s)
      | e # es \<Rightarrow>
          if e = 0x65 \<or> e = 0x45 then
            (let (neg, ds) =
                   (case es of
                      [] \<Rightarrow> (False, es)
                    | g # gs \<Rightarrow>
                        if g = 0x2d then (True, gs)
                        else if g = 0x2b then (False, gs) else (False, es))
             in if takeWhile is_digit ds = [] then None
                else Some ((if neg then - 1 else 1) * int (digits_val (takeWhile is_digit ds)),
                           dropWhile is_digit ds))
          else Some (0, s))"

definition json_fraction :: "jsstring \<Rightarrow> (rat \<times> jsstring) option" where
  "json_fraction s =
     (case s of
        [] \<Rightarrow> Some (0, s)
      | p # fs \<Rightarrow>
          if p = 0x2e then
            (if takeWhile is_digit fs = [] then None
             else Some (of_nat (digits_val (takeWhile is_digit fs))
                          / 10 ^ length (takeWhile is_digit fs),
                        dropWhile is_digit fs))
          else Some (0, s))"

definition json_integer :: "jsstring \<Rightarrow> (nat \<times> jsstring) option" where
  "json_integer s =
     (case s of
        [] \<Rightarrow> None
      | d # ds \<Rightarrow>
          if d = 0x30 then Some (0, ds)
          else if is_digit d then Some (digits_val (takeWhile is_digit s), dropWhile is_digit s)
          else None)"

definition json_number :: "jsstring \<Rightarrow> (rat \<times> jsstring) option" where
  "json_number s =
     (let (neg, s1) = (case s of [] \<Rightarrow> (False, s) | c # cs \<Rightarrow> if c = 0x2d then (True, cs) else (False, s))
      in case json_integer s1 of
           None \<Rightarrow> None
         | Some (i, s2) \<Rightarrow>
             (case json_fraction s2 of
                None \<Rightarrow> None
              | Some (f, s3) \<Rightarrow>
                  (case json_exponent s3 of
                     None \<Rightarrow> None
                   | Some (e, s4) \<Rightarrow>
                       Some ((if neg then - 1 else 1) * (of_nat i + f)
                               * (if e < 0 then 1 / 10 ^ nat (- e) else 10 ^ nat e),
                             s4))))"

text \<open>
  The recursive descent over values, array elements and object members. The first
  argument bounds the number of nested calls; \<open>OutOfFuel\<close> reports that it was too small,
  which \<open>JSON_parse\<close> below excludes by the bound it passes. The members of an object
  literal are defined from left to right, so a repeated key keeps its last value.
\<close>

datatype 'a parsed = OutOfFuel | Fail | Ok 'a jsstring

fun json_value :: "nat \<Rightarrow> jsstring \<Rightarrow> jsval parsed"
  and json_elems :: "nat \<Rightarrow> jsstring \<Rightarrow> (jsval list) parsed"
  and json_members :: "nat \<Rightarrow> jsstring \<Rightarrow> object parsed"
where
  "json_value 0 s = OutOfFuel"
| "json_value (Suc n) s =
     (case skip_ws s of
        [] \<Rightarrow> Fail
      | c # cs \<Rightarrow>
          if c = 0x22 then
            (case json_chars cs of None \<Rightarrow> Fail | Some (str, r) \<Rightarrow> Ok (Str str) r)
          else if c = 0x5b then
            (case skip_ws cs of
               [] \<Rightarrow> Fail
             | d # ds \<Rightarrow>
                 if d = 0x5d then Ok (Arr []) ds
                 else (case json_elems n cs of
                         OutOfFuel \<Rightarrow> OutOfFuel
                       | Fail \<Rightarrow> Fail
                       | Ok vs r \<Rightarrow> Ok (Arr vs) r))
          else if c = 0x7b then
            (case skip_ws cs of
               [] \<Rightarrow> Fail
             | d # ds \<Rightarrow>
                 if d = 0x7d then Ok (Obj []) ds
                 else (case json_members n cs of
                         OutOfFuel \<Rightarrow> OutOfFuel
                       | Fail \<Rightarrow> Fail
                       | Ok ps r \<Rightarrow>
                           Ok (Obj (foldl (\<lambda>ob (k, v). defineProperty ob k v) [] ps)) r))
          else if starts_with (c # cs) (js ''true'') then Ok (Bool True) (drop 4 (c # cs))
          else if starts_with (c # cs) (js ''false'') then Ok (Bool False) (drop 5 (c # cs))
          else if starts_with (c # cs) (js ''null'') then Ok Null (drop 4 (c # cs))
          else (case json_number (c # cs) of None \<Rightarrow> Fail | Some (r, rest) \<Rightarrow> Ok (Num r) rest))"
| "json_elems 0 s = OutOfFuel"
| "json_elems (Suc n) s =
     (case json_value n s of
        OutOfFuel \<Rightarrow> OutOfFuel
      | Fail \<Rightarrow> Fail
      | Ok v r \<Rightarrow>
          (case skip_ws r of
             [] \<Rightarrow> Fail
           | c # r' \<Rightarrow>
               if c = 0x2c then
                 (case json_elems n r' of
                    OutOfFuel \<Rightarrow> OutOfFuel
                  | Fail \<Rightarrow> Fail
                  | Ok vs r'' \<Rightarrow> Ok (v # vs) r'')
               else if c = 0x5d then Ok [v] r'
               else Fail))"
| "json_members 0 s = OutOfFuel"
| "json_members (Suc n) s =
     (case skip_ws s of
        [] \<Rightarrow> Fail
      | q # cs \<Rightarrow>
          if q = 0x22 then
            (case json_chars cs of
               None \<Rightarrow> Fail
             | Some (key, r) \<Rightarrow>
                 (case skip_ws r of
                    [] \<Rightarrow> Fail
                  | c # r1 \<Rightarrow>
                      if c = 0x3a then
                        (case json_value n r1 of
                           OutOfFuel \<Rightarrow> OutOfFuel
                         | Fail \<Rightarrow> Fail
                         | Ok v r2 \<Rightarrow>
                             (case skip_ws r2 of
                                [] \<Rightarrow> Fail
                              | e # r3 \<Rightarrow>
                                  if e = 0x2c then
                                    (case json_members n r3 of
                                       OutOfFuel \<Rightarrow> OutOfFuel
                                     | Fail \<Rightarrow> Fail
                                     | Ok ps r4 \<Rightarrow> Ok ((key, v) # ps) r4)
                                  else if e = 0x7d then Ok [(key, v)] r3
                                  else Fail))
                      else Fail))
          else Fail)"

text \<open>
  \<^verbatim>\<open>JSON.parse(text)\<close>: one value with optional white space around it; \<open>None\<close> is the
  SyntaxError.
\<close>

definition JSON_parse :: "jsstring \<Rightarrow> jsval option" where
  "JSON_parse s =
     (case json_value (2 * length s + 1) s of
        Ok v r \<Rightarrow> if skip_ws r = [] then Some v else None
      | _ \<Rightarrow> None)"

text \<open>A result other than \<open>OutOfFuel\<close> that, when a value, took at least one character.\<close>

definition consumed :: "jsstring \<Rightarrow> 'a parsed \<Rightarrow> bool" where
  "consumed s res = (case res of OutOfFuel \<Rightarrow> False | Fail \<Rightarrow> True | Ok v r \<Rightarrow> length r < length s)"

section \<open>getBoundary\<close>

text \<open>
  The \<^verbatim>\<open>for\<close> loop of \<^verbatim>\<open>getBoundary\<close> over \<^verbatim>\<open>items\<close>, returning from inside the loop at the
  first item that contains \<^verbatim>\<open>'boundary'\<close>, and \<^verbatim>\<open>''\<close> after the loop.
\<close>

fun getBoundary_items :: "jsstring list \<Rightarrow> jsstring" where
  "getBoundary_items [] = []"
| "getBoundary_items (it # items) =
     (let item = trim (to_str (Some it))
      in if indexOf item (js ''boundary'') \<ge> 0
         then (let k = split (of_char CHR ''='') item in trim (to_str (elem_at k 1)))
         else getBoundary_items items)"

definition getBoundary :: "jsstring \<Rightarrow> jsstring" where
  "getBoundary header = getBoundary_items (split (of_char CHR '';'') header)"

section \<open>parse\<close>

subsection \<open>The assembler: process\<close>

datatype error = TypeError | SyntaxError

text \<open>The object \<^verbatim>\<open>p\<close> that the scanner hands to \<^verbatim>\<open>process\<close>.\<close>

record rawpart =
  header :: jsstring
  info :: jsstring
  part :: bytes
  fieldInfo :: jsstring

text \<open>
  \<^verbatim>\<open>obj(str)\<close>. Its argument is an element of a split header and may be \<^verbatim>\<open>undefined\<close>:
  calling \<^verbatim>\<open>split\<close> on it, or \<^verbatim>\<open>trim\<close> on a missing \<^verbatim>\<open>k[1]\<close>, throws a TypeError, and
  \<^verbatim>\<open>JSON.parse\<close> throws a SyntaxError.
\<close>

definition obj :: "jsstring option \<Rightarrow> error + object" where
  "obj str =
     (case str of
        None \<Rightarrow> Inl TypeError
      | Some s \<Rightarrow>
          (let k = split (of_char CHR ''='') s
           in case elem_at k 0 of
                None \<Rightarrow> Inl TypeError
              | Some k0 \<Rightarrow>
                  (let a = trim k0
                   in case elem_at k 1 of
                        None \<Rightarrow> Inl TypeError
                      | Some k1 \<Rightarrow>
                          (case JSON_parse (trim k1) of
                             None \<Rightarrow> Inl SyntaxError
                           | Some b \<Rightarrow> Inr (defineProperty [] a b)))))"

definition process :: "rawpart \<Rightarrow> error + object" where
  "process p =
     (let hdr = split (of_char CHR '';'') (header p)
      in if fieldInfo p \<noteq> [] then
           (case obj (elem_at hdr 1) of
              Inl e \<Rightarrow> Inl e
            | Inr field \<Rightarrow> Inr (defineProperty field (js ''data'') (Str (fieldInfo p))))
         else
           (case obj (elem_at hdr 2) of
              Inl e \<Rightarrow> Inl e
            | Inr file \<Rightarrow>
                (case obj (elem_at hdr 1) of
                   Inl e \<Rightarrow> Inl e
                 | Inr fileField \<Rightarrow>
                     (let file1 =
                            (case get_prop fileField (js ''name'') of
                               None \<Rightarrow> file
                             | Some v \<Rightarrow>
                                 if truthy v then defineProperty file (js ''name'') v else file)
                      in case elem_at (split (of_char CHR '':'') (info p)) 1 of
                           None \<Rightarrow> Inl TypeError
                         | Some t \<Rightarrow>
                             (let contentType = trim t;
                                  file2 = defineProperty file1 (js ''type'') (Str contentType)
                              in Inr (defineProperty file2 (js ''data'') (Buf (part p))))))))"

subsection \<open>The scanner\<close>

text \<open>
  The variables that the \<^verbatim>\<open>for\<close> loop of \<^verbatim>\<open>parse\<close> updates. The variables \<^verbatim>\<open>header\<close>,
  \<^verbatim>\<open>info\<close> and \<^verbatim>\<open>fieldInfo\<close> carry the suffix \<open>_v\<close>, their names being taken by the fields
  of \<open>rawpart\<close>.
\<close>

record scanner =
  lastline :: bytes
  header_v :: jsstring
  info_v :: jsstring
  state :: nat
  buffer :: bytes
  allParts :: "object list"
  fieldInfo_v :: jsstring

definition init :: scanner where
  "init = \<lparr>lastline = [], header_v = [], info_v = [], state = 0, buffer = [],
            allParts = [], fieldInfo_v = []\<rparr>"

text \<open>
  One iteration of the loop, on the byte \<open>oneByte\<close> with \<open>prevByte\<close> before it (\<open>None\<close> at
  index 0). An exception thrown by \<^verbatim>\<open>process\<close> leaves the loop.
\<close>

definition step :: "jsstring \<Rightarrow> nat option \<Rightarrow> scanner \<Rightarrow> nat \<Rightarrow> error + scanner" where
  "step boundary prevByte s oneByte =
     (let newLineDetected = (oneByte = 0x0a \<and> prevByte = Some 0x0d);
          newLineChar = (oneByte = 0x0a \<or> oneByte = 0x0d);
          s = (if newLineChar then s else s\<lparr>lastline := lastline s @ [oneByte]\<rparr>)
      in if state s = 0 \<and> newLineDetected then
           Inr (s\<lparr>state := (if js ''--'' @ boundary = toString (lastline s) then 1 else 0),
                  lastline := []\<rparr>)
         else if state s = 1 \<and> newLineDetected then
           Inr (s\<lparr>header_v := toString (lastline s), state := 2, lastline := []\<rparr>)
         else if state s = 2 \<and> newLineDetected then
           Inr (s\<lparr>info_v := toString (lastline s), state := 3, lastline := []\<rparr>)
         else if state s = 3 \<and> newLineDetected then
           Inr (s\<lparr>fieldInfo_v := toString (lastline s), state := 4, buffer := [],
                  lastline := []\<rparr>)
         else if state s = 4 then
           (let s = (if length (lastline s) > length boundary + 4
                     then s\<lparr>lastline := []\<rparr> else s)
            in if js ''--'' @ boundary = toString (lastline s) then
                 (let j = int (length (buffer s)) - int (length (lastline s));
                      part = slice0 (buffer s) (j - 1);
                      p = \<lparr>header = header_v s, info = info_v s, part = part,
                            fieldInfo = fieldInfo_v s\<rparr>
                  in case process p of
                       Inl e \<Rightarrow> Inl e
                     | Inr r \<Rightarrow>
                         Inr (s\<lparr>allParts := allParts s @ [r], buffer := [], lastline := [],
                                state := 5, header_v := [], info_v := []\<rparr>))
               else
                 Inr ((s\<lparr>buffer := buffer s @ [oneByte]\<rparr>)
                        \<lparr>lastline := (if newLineDetected then [] else lastline s)\<rparr>))
         else if state s = 5 then
           Inr (if newLineDetected then s\<lparr>state := 1\<rparr> else s)
         else Inr s)"

text \<open>The loop over the bytes of the body, from index \<open>i\<close> on; \<open>prevByte\<close> is the byte at \<open>i - 1\<close>.\<close>

fun scan :: "jsstring \<Rightarrow> nat option \<Rightarrow> scanner \<Rightarrow> bytes \<Rightarrow> error + scanner" where
  "scan boundary prevByte s [] = Inr s"
| "scan boundary prevByte s (oneByte # rest) =
     (case step boundary prevByte s oneByte of
        Inl e \<Rightarrow> Inl e
      | Inr s' \<Rightarrow> scan boundary (Some oneByte) s' rest)"

definition parse :: "bytes \<Rightarrow> jsstring \<Rightarrow> error + object list" where
  "parse multipartBodyBuffer boundary =
     (case scan boundary None init multipartBodyBuffer of
        Inl e \<Rightarrow> Inl e
      | Inr s \<Rightarrow> Inr (allParts s))"

subsection \<open>The scanner without the memory-saving test\<close>

text \<open>
  The loop of \<^verbatim>\<open>parse\<close> with the test marked \<^verbatim>\<open>mem save\<close> left out, so that in state 4 the
  candidate line holds every byte of the current line. It is the scanner that the
  memory-saving test is meant to be equivalent to.
\<close>

definition step_unbounded :: "jsstring \<Rightarrow> nat option \<Rightarrow> scanner \<Rightarrow> nat \<Rightarrow> error + scanner" where
  "step_unbounded boundary prevByte s oneByte =
     (let newLineDetected = (oneByte = 0x0a \<and> prevByte = Some 0x0d);
          newLineChar = (oneByte = 0x0a \<or> oneByte = 0x0d);
          s = (if newLineChar then s else s\<lparr>lastline := lastline s @ [oneByte]\<rparr>)
      in if state s = 0 \<and> newLineDetected then
           Inr (s\<lparr>state := (if js ''--'' @ boundary = toString (lastline s) then 1 else 0),
                  lastline := []\<rparr>)
         else if state s = 1 \<and> newLineDetected then
           Inr (s\<lparr>header_v := toString (lastline s), state := 2, lastline := []\<rparr>)
         else if state s = 2 \<and> newLineDetected then
           Inr (s\<lparr>info_v := toString (lastline s), state := 3, lastline := []\<rparr>)
         else if state s = 3 \<and> newLineDetected then
           Inr (s\<lparr>fieldInfo_v := toString (lastline s), state := 4, buffer := [],
                  lastline := []\<rparr>)
         else if state s = 4 then
           (if js ''--'' @ boundary = toString (lastline s) then
              (let j = int (length (buffer s)) - int (length (lastline s));
                   part = slice0 (buffer s) (j - 1);
                   p = \<lparr>header = header_v s, info = info_v s, part = part,
                         fieldInfo = fieldInfo_v s\<rparr>
               in case process p of
                    Inl e \<Rightarrow> Inl e
                  | Inr r \<Rightarrow>
                      Inr (s\<lparr>allParts := allParts s @ [r], buffer := [], lastline := [],
                             state := 5, header_v := [], info_v := []\<rparr>))
            else
              Inr ((s\<lparr>buffer := buffer s @ [oneByte]\<rparr>)
                     \<lparr>lastline := (if newLineDetected then [] else lastline s)\<rparr>))
         else if state s = 5 then
           Inr (if newLineDetected then s\<lparr>state := 1\<rparr> else s)
         else Inr s)"

fun scan_unbounded :: "jsstring \<Rightarrow> nat option \<Rightarrow> scanner \<Rightarrow> bytes \<Rightarrow> error + scanner" where
  "scan_unbounded boundary prevByte s [] = Inr s"
| "scan_unbounded boundary prevByte s (oneByte # rest) =
     (case step_unbounded boundary prevByte s oneByte of
        Inl e \<Rightarrow> Inl e
      | Inr s' \<Rightarrow> scan_unbounded boundary (Some oneByte) s' rest)"

definition parse_unbounded :: "bytes \<Rightarrow> jsstring \<Rightarrow> error + object list" where
  "parse_unbounded multipartBodyBuffer boundary =
     (case scan_unbounded boundary None init multipartBodyBuffer of
        Inl e \<Rightarrow> Inl e
      | Inr s \<Rightarrow> Inr (allParts s))"

section \<open>Multipart bodies\<close>

text \<open>
  What the properties below are stated about: the bodies that a client builds from a list
  of parts and a boundary. A line is a run of bytes without CR or LF; a boundary is a run
  of ASCII characters without CR or LF.
\<close>

definition is_nl :: "nat \<Rightarrow> bool" where
  "is_nl b = (b = 0x0a \<or> b = 0x0d)"

definition one_line :: "bytes \<Rightarrow> bool" where
  "one_line l = list_all (\<lambda>b. \<not> is_nl b) l"

definition token :: "jsstring \<Rightarrow> bool" where
  "token boundary = list_all (\<lambda>c. c < 0x80 \<and> \<not> is_nl c) boundary"

definition dash_boundary :: "jsstring \<Rightarrow> bytes" where
  "dash_boundary boundary = js ''--'' @ boundary"

text \<open>
  One part as the scanner reads it: three lines after the delimiter line, then either the
  next delimiter at once (\<open>None\<close>) or content followed by CRLF and the next delimiter.
  A text field is a disposition line, an empty line and the value line; a file is a
  disposition line, a content-type line, an empty line and the payload.
\<close>

datatype segment = Segment bytes bytes bytes "bytes option"

definition Field :: "bytes \<Rightarrow> bytes \<Rightarrow> segment" where
  "Field disposition val = Segment disposition [] val None"

definition File :: "bytes \<Rightarrow> bytes \<Rightarrow> bytes \<Rightarrow> segment" where
  "File disposition ctype payload = Segment disposition ctype [] (Some payload)"

fun enc_part :: "segment \<Rightarrow> bytes" where
  "enc_part (Segment l1 l2 l3 c) =
     l1 @ CRLF @ l2 @ CRLF @ l3 @ CRLF @ (case c of None \<Rightarrow> [] | Some d \<Rightarrow> d @ CRLF)"

text \<open>Each part after its delimiter line, and the whole body with the closing delimiter.\<close>

definition encode_parts :: "jsstring \<Rightarrow> segment list \<Rightarrow> bytes" where
  "encode_parts boundary sgs =
     concat (map (\<lambda>sg. dash_boundary boundary @ CRLF @ enc_part sg) sgs)"

definition encode :: "jsstring \<Rightarrow> segment list \<Rightarrow> bytes" where
  "encode boundary sgs = encode_parts boundary sgs @ dash_boundary boundary @ js ''--'' @ CRLF"

text \<open>
  The parts that the properties cover: the three lines are lines, and the content, read
  without its CR and LF bytes, nowhere shows the two dashes and the boundary.
\<close>

fun well_formed :: "jsstring \<Rightarrow> segment \<Rightarrow> bool" where
  "well_formed boundary (Segment l1 l2 l3 c) =
     (one_line l1 \<and> one_line l2 \<and> one_line l3 \<and>
      (case c of
         None \<Rightarrow> True
       | Some d \<Rightarrow> \<not> sublist (dash_boundary boundary) (filter (\<lambda>b. \<not> is_nl b) d)))"

text \<open>
  The object \<^verbatim>\<open>p\<close> that the scanner builds for a part. Without content the buffer holds the
  delimiter short of its last byte when the slice is taken.
\<close>

fun raw :: "jsstring \<Rightarrow> segment \<Rightarrow> rawpart" where
  "raw boundary (Segment l1 l2 l3 c) =
     \<lparr>header = toString l1, info = toString l2,
      part = (case c of
                None \<Rightarrow> slice0 (butlast (dash_boundary boundary)) (- 2)
              | Some d \<Rightarrow> d),
      fieldInfo = toString l3\<rparr>"

text \<open>\<^verbatim>\<open>process\<close> on each in turn, stopping at the first exception.\<close>

fun assemble :: "rawpart list \<Rightarrow> error + object list" where
  "assemble [] = Inr []"
| "assemble (p # ps) =
     (case process p of
        Inl e \<Rightarrow> Inl e
      | Inr r \<Rightarrow> (case assemble ps of Inl e \<Rightarrow> Inl e | Inr rs \<Rightarrow> Inr (r # rs)))"

text \<open>
  The header lines that a client writes for a file: the name and the file name between
  double quotes, of characters that stand for themselves there (ASCII from the space on,
  without the double quote, the backslash, \<open>;\<close> and \<open>=\<close>), and a media type without a colon
  and without white space at its ends.
\<close>

definition plain :: "jsstring \<Rightarrow> bool" where
  "plain s = list_all (\<lambda>c. 0x20 \<le> c \<and> c < 0x80 \<and> c \<noteq> 0x22 \<and> c \<noteq> 0x5c \<and> c \<noteq> 0x3b \<and> c \<noteq> 0x3d) s"

definition media_type :: "jsstring \<Rightarrow> bool" where
  "media_type ty = (list_all (\<lambda>c. c < 0x80 \<and> \<not> is_nl c \<and> c \<noteq> 0x3a) ty \<and> trim ty = ty)"

definition file_disposition :: "jsstring \<Rightarrow> jsstring \<Rightarrow> bytes" where
  "file_disposition name filename =
     js ''Content-Disposition: form-data; name=\"'' @ name @ js ''\"; filename=\"'' @ filename @ js ''\"''"

definition content_type :: "jsstring \<Rightarrow> bytes" where
  "content_type ty = js ''Content-Type: '' @ ty"

text \<open>
  The complete lines of a body, each ended by a CR directly followed by LF; bytes after
  the last such pair belong to no complete line.
\<close>

fun crlf_lines_from :: "bytes \<Rightarrow> bytes \<Rightarrow> bytes list" where
  "crlf_lines_from cur [] = []"
| "crlf_lines_from cur [b] = []"
| "crlf_lines_from cur (b # c # bs) =
     (if b = 0x0d \<and> c = 0x0a then cur # crlf_lines_from [] bs
      else crlf_lines_from (cur @ [b]) (c # bs))"

definition crlf_lines :: "bytes \<Rightarrow> bytes list" where
  "crlf_lines body = crlf_lines_from [] body"

text \<open>The text of a line as the scanner compares it: CR and LF bytes left out, decoded.\<close>

definition line_text :: "bytes \<Rightarrow> jsstring" where
  "line_text l = toString (filter (\<lambda>b. \<not> is_nl b) l)"

section \<open>Properties of getBoundary\<close>

lemma getBoundary_items_find:
  "getBoundary_items items =
     (case find (\<lambda>seg. indexOf (trim seg) (js ''boundary'') \<ge> 0) items of
        None \<Rightarrow> []
      | Some seg \<Rightarrow> trim (to_str (elem_at (split (of_char CHR ''='') (trim seg)) 1)))"
  by (induction items) (simp_all add: Let_def)

lemma split_no_sep: "c \<notin> set s \<Longrightarrow> split c s = [s]"
  by (induction s) auto

lemma set_trim: "set (trim s) \<subseteq> set s"
proof -
  have "set (trim s) \<subseteq> set (dropWhile is_ws s)"
    unfolding trim_def using set_dropWhileD [of _ is_ws "rev (dropWhile is_ws s)"] by auto
  also have "\<dots> \<subseteq> set s"
    using set_dropWhileD [of _ is_ws s] by auto
  finally show ?thesis .
qed

lemma trim_undefined: "trim (js ''undefined'') = js ''undefined''"
  by (simp add: trim_def js_def is_ws_def)

text \<open>
  \<^verbatim>\<open>indexOf\<close> answers whether the string contains the substring, at any position:
  \<^verbatim>\<open>item.indexOf('boundary') >= 0\<close> is the test whether \<open>item\<close> contains \<open>boundary\<close>.
\<close>

lemma starts_with_prefix: "starts_with s sub \<longleftrightarrow> prefix sub s"
  by (induction s sub rule: starts_with.induct) auto

lemma indexOf_sublist: "0 \<le> indexOf s sub \<longleftrightarrow> sublist sub s"
  by (induction s) (auto simp: starts_with_prefix sublist_Cons_right Let_def)

lemma getBoundary_items_first:
  "getBoundary_items items =
     (case find (\<lambda>seg. sublist (js ''boundary'') (trim seg)) items of
        None \<Rightarrow> []
      | Some seg \<Rightarrow> trim (to_str (elem_at (split (of_char CHR ''='') (trim seg)) 1)))"
  by (induction items) (simp_all add: Let_def indexOf_sublist)

text \<open>
  C4. getBoundary splits the header value on \<open>;\<close>, trims each segment, and at the first
  (leftmost) segment containing the substring \<open>boundary\<close>, at whatever position in the
  segment, returns the second portion of that segment split on \<open>=\<close>, trimmed; when no
  segment contains \<open>boundary\<close> it returns the empty string. The two examples of the
  specification are included.
\<close>

theorem getBoundary_first_match:
  "(find (\<lambda>seg. sublist (js ''boundary'') (trim seg)) (split (of_char CHR '';'') hv) = None
      \<longrightarrow> getBoundary hv = [])
   \<and> (\<forall>seg k0 k1 ks.
        find (\<lambda>seg. sublist (js ''boundary'') (trim seg)) (split (of_char CHR '';'') hv) = Some seg
          \<and> split (of_char CHR ''='') (trim seg) = k0 # k1 # ks
        \<longrightarrow> getBoundary hv = trim k1)
   \<and> getBoundary (js ''multipart/form-data; boundary=ABC123'') = js ''ABC123''
   \<and> getBoundary (js ''text/plain'') = []"
proof -
  have ex1: "getBoundary (js ''multipart/form-data; boundary=ABC123'') = js ''ABC123''"
    by (simp add: getBoundary_def js_def trim_def is_ws_def elem_at_def)
  have ex2: "getBoundary (js ''text/plain'') = []"
    by (simp add: getBoundary_def js_def trim_def is_ws_def elem_at_def)
  show ?thesis
    using ex1 ex2 by (simp add: getBoundary_def getBoundary_items_first elem_at_def)
qed

text \<open>
  An instance where \<open>boundary\<close> stands inside the third segment, after an empty segment and
  before a later segment that also contains it.
\<close>

theorem getBoundary_first_match_witness:
  "find (\<lambda>seg. sublist (js ''boundary'') (trim seg))
      (split (of_char CHR '';'') (js ''a/b;; xboundaryx = p q ;boundary=zz'')) = Some (js '' xboundaryx = p q '')
   \<and> split (of_char CHR ''='') (trim (js '' xboundaryx = p q '')) = [js ''xboundaryx '', js '' p q'']
   \<and> getBoundary (js ''a/b;; xboundaryx = p q ;boundary=zz'') = js ''p q''"
proof -
  have f: "find (\<lambda>seg. sublist (js ''boundary'') (trim seg))
      (split (of_char CHR '';'') (js ''a/b;; xboundaryx = p q ;boundary=zz'')) = Some (js '' xboundaryx = p q '')"
    by (simp add: indexOf_sublist [symmetric] js_def trim_def is_ws_def)
  have s: "split (of_char CHR ''='') (trim (js '' xboundaryx = p q '')) = js ''xboundaryx '' # js '' p q'' # []"
    by (simp add: js_def trim_def is_ws_def)
  have t: "trim (js '' p q'') = js ''p q''"
    by (simp add: js_def trim_def is_ws_def)
  from getBoundary_first_match [of "js ''a/b;; xboundaryx = p q ;boundary=zz''"] f s
  have "getBoundary (js ''a/b;; xboundaryx = p q ;boundary=zz'') = trim (js '' p q'')"
    by blast
  with f s t show ?thesis by simp
qed

text \<open>
  C9, as stated, fails: a header value may contain a segment with \<open>boundary\<close> and no \<open>=\<close> to the
  right of an earlier segment that also contains \<open>boundary\<close>; the loop returns at the
  earlier one.
\<close>

theorem getBoundary_undefined_counterexample:
  "js ''boundary'' \<in> set (split (of_char CHR '';'') (js ''boundary=X;boundary''))
   \<and> indexOf (js ''boundary'') (js ''boundary'') \<ge> 0
   \<and> of_char CHR ''='' \<notin> set (js ''boundary'')
   \<and> getBoundary (js ''boundary=X;boundary'') = js ''X''
   \<and> js ''X'' \<noteq> js ''undefined''"
  by (simp add: getBoundary_def js_def trim_def is_ws_def elem_at_def)

text \<open>
  C9, amended. When the first (leftmost) segment containing the substring \<open>boundary\<close>
  contains no \<open>=\<close>, getBoundary returns the nine-character string \<open>undefined\<close>.
\<close>

theorem getBoundary_undefined:
  assumes "find (\<lambda>seg. indexOf (trim seg) (js ''boundary'') \<ge> 0) (split (of_char CHR '';'') hv) = Some seg"
    and "of_char CHR ''='' \<notin> set seg"
  shows "getBoundary hv = js ''undefined'' \<and> length (getBoundary hv) = 9"
proof -
  from assms(2) set_trim [of seg] have "of_char CHR ''='' \<notin> set (trim seg)"
    by blast
  then have "split (of_char CHR ''='') (trim seg) = [trim seg]"
    by (rule split_no_sep)
  with assms(1) have "getBoundary hv = js ''undefined''"
    by (simp add: getBoundary_def getBoundary_items_find elem_at_def trim_undefined)
  then show ?thesis by (simp add: js_def)
qed

theorem getBoundary_undefined_witness:
  "find (\<lambda>seg. indexOf (trim seg) (js ''boundary'') \<ge> 0)
      (split (of_char CHR '';'') (js ''multipart/form-data; boundary'')) = Some (js '' boundary'')
   \<and> of_char CHR ''='' \<notin> set (js '' boundary'')
   \<and> getBoundary (js ''multipart/form-data; boundary'') = js ''undefined''"
proof -
  have f: "find (\<lambda>seg. indexOf (trim seg) (js ''boundary'') \<ge> 0)
      (split (of_char CHR '';'') (js ''multipart/form-data; boundary'')) = Some (js '' boundary'')"
    by (simp add: js_def trim_def is_ws_def)
  have n: "of_char CHR ''='' \<notin> set (js '' boundary'')"
    by (simp add: js_def)
  from getBoundary_undefined [OF f n] f n show ?thesis by simp
qed

section \<open>Properties of Buffer.prototype.toString\<close>

lemma utf8_2_high:
  assumes "0xc2 \<le> b"
  shows "fst (utf8_2 b bs) \<noteq> [] \<and> 0x80 \<le> hd (fst (utf8_2 b bs))"
proof -
  from assms have "0x80 \<le> (b - 0xc0) * 64" by arith
  then have "\<And>c. 0x80 \<le> (b - 0xc0) * 64 + (c - 0x80)" by arith
  then show ?thesis
    by (cases bs) (simp_all add: utf8_2_def)
qed

lemma utf8_3_high:
  assumes "0xe0 \<le> b"
  shows "fst (utf8_3 b bs) \<noteq> [] \<and> 0x80 \<le> hd (fst (utf8_3 b bs))"
proof (cases bs)
  case Nil
  then show ?thesis by (simp add: utf8_3_def)
next
  case bs: (Cons c cs)
  show ?thesis
  proof (cases cs)
    case Nil
    with bs show ?thesis by (simp add: utf8_3_def)
  next
    case (Cons d ds)
    have 1: "0xa0 \<le> c \<Longrightarrow> 0x80 \<le> (b - 0xe0) * 4096 + (c - 0x80) * 64 + (d - 0x80)"
      by arith
    have 2: "b \<noteq> 0xe0 \<Longrightarrow> 0x80 \<le> (b - 0xe0) * 4096 + (c - 0x80) * 64 + (d - 0x80)"
      using assms by arith
    show ?thesis
      using bs Cons 1 2 by (auto simp: utf8_3_def)
  qed
qed

lemma utf8_4_high: "fst (utf8_4 b bs) \<noteq> [] \<and> 0x80 \<le> hd (fst (utf8_4 b bs))"
  by (simp add: utf8_4_def Let_def split: list.split)

lemma utf8_seq_high:
  "0x80 \<le> b \<Longrightarrow> fst (utf8_seq b bs) \<noteq> [] \<and> 0x80 \<le> hd (fst (utf8_seq b bs))"
  using utf8_2_high [of b bs] utf8_3_high [of b bs] utf8_4_high [of b bs]
  by (simp add: utf8_seq_def)

lemma utf8_decode_high_hd:
  "\<not> b < 0x80 \<Longrightarrow> \<exists>u us. utf8_decode (b # bs) = u # us \<and> 0x80 \<le> u"
  using utf8_seq_high [of b bs] by (cases "fst (utf8_seq b bs)") auto

lemma utf8_decode_ascii_hd: "b < 0x80 \<Longrightarrow> utf8_decode (b # bs) = b # utf8_decode bs"
  by simp

lemma utf8_decode_ascii: "list_all (\<lambda>c. c < 0x80) s \<Longrightarrow> utf8_decode s = s"
  by (induction s) simp_all

text \<open>Only the ASCII bytes themselves decode to an ASCII string.\<close>

lemma utf8_decode_eq_ascii:
  "utf8_decode bs = s \<Longrightarrow> list_all (\<lambda>c. c < 0x80) s \<Longrightarrow> bs = s"
proof (induction bs arbitrary: s)
  case Nil
  then show ?case by simp
next
  case (Cons b bs)
  show ?case
  proof (cases "b < 0x80")
    case True
    with Cons.prems have "s = b # utf8_decode bs"
      by simp
    with Cons.prems Cons.IH [of "utf8_decode bs"] show ?thesis
      by simp
  next
    case False
    from utf8_decode_high_hd [OF False, of bs] obtain u us
      where "utf8_decode (b # bs) = u # us" and "0x80 \<le> u" by blast
    with Cons.prems show ?thesis by auto
  qed
qed

lemma toString_ascii: "list_all (\<lambda>c. c < 0x80) s \<Longrightarrow> toString s = s"
  by (simp add: toString_def utf8_decode_ascii)

lemma toString_eq_ascii:
  "list_all (\<lambda>c. c < 0x80) s \<Longrightarrow> toString bs = s \<longleftrightarrow> bs = s"
  using utf8_decode_eq_ascii [of bs s] utf8_decode_ascii [of s] by (auto simp: toString_def)

lemma toString_Nil_iff: "toString bs = [] \<longleftrightarrow> bs = []"
  using toString_eq_ascii [of "[]" bs] by simp

section \<open>Properties of JSON.parse\<close>

lemma length_skip_ws: "length (skip_ws s) \<le> length s"
  by (simp add: skip_ws_def length_dropWhile_le)

lemma json_chars_shorter: "json_chars s = Some (x, r) \<Longrightarrow> length r < length s"
proof (induction s arbitrary: x r rule: json_chars.induct)
  case 1
  then show ?case by simp
next
  case (2 c cs)
  show ?case
  proof (cases "c = 0x22")
    case True
    with "2.prems" show ?thesis by simp
  next
    case nq: False
    show ?thesis
    proof (cases "c = 0x5c")
      case False
      with nq "2.prems" "2.IH"(3) show ?thesis
        by (fastforce split: if_splits option.splits)
    next
      case bs: True
      show ?thesis
      proof (cases cs)
        case Nil
        with bs "2.prems" show ?thesis by simp
      next
        case (Cons e es)
        show ?thesis
        proof (cases "e = 0x75")
          case False
          with nq bs Cons "2.prems" "2.IH"(2) [OF nq bs Cons False] show ?thesis
            by (fastforce split: option.splits)
        next
          case True
          with nq bs Cons "2.prems" "2.IH"(1) [OF nq bs Cons True] show ?thesis
            by (fastforce split: option.splits list.splits)
        qed
      qed
    qed
  qed
qed

lemma json_integer_shorter: "json_integer s = Some (i, r) \<Longrightarrow> length r < length s"
  by (cases s) (auto simp: json_integer_def less_Suc_eq_le length_dropWhile_le split: if_splits)

lemma json_fraction_shorter: "json_fraction s = Some (f, r) \<Longrightarrow> length r \<le> length s"
  by (cases s) (auto simp: json_fraction_def le_SucI length_dropWhile_le split: if_splits)

lemma json_exponent_shorter: "json_exponent s = Some (e, r) \<Longrightarrow> length r \<le> length s"
proof (cases s)
  case Nil
  assume "json_exponent s = Some (e, r)"
  with Nil show ?thesis by (simp add: json_exponent_def)
next
  case (Cons c cs)
  assume a: "json_exponent s = Some (e, r)"
  have "length (dropWhile is_digit xs) \<le> length xs" for xs :: "nat list"
    by (rule length_dropWhile_le)
  then have 1: "length (dropWhile is_digit cs) \<le> Suc (length cs)"
    and 2: "\<And>g gs. cs = g # gs \<Longrightarrow> length (dropWhile is_digit gs) \<le> Suc (Suc (length gs))"
    by (meson le_SucI)+
  from a Cons 1 2 show ?thesis
    by (auto simp: json_exponent_def Let_def split: if_splits list.splits prod.splits)
qed

lemma json_number_shorter: "json_number s = Some (v, r) \<Longrightarrow> length r < length s"
proof -
  assume a: "json_number s = Some (v, r)"
  define s1 where "s1 = (case s of [] \<Rightarrow> s | c # cs \<Rightarrow> if c = 0x2d then cs else s)"
  have s1: "length s1 \<le> length s" by (auto simp: s1_def split: list.splits)
  from a obtain i s2 f s3 e where "json_integer s1 = Some (i, s2)" "json_fraction s2 = Some (f, s3)"
    "json_exponent s3 = Some (e, r)"
    by (auto simp: json_number_def s1_def Let_def split: list.splits if_splits option.splits prod.splits)
  with s1 show ?thesis
    using json_integer_shorter json_fraction_shorter json_exponent_shorter
    by (meson le_trans less_le_trans not_less)
qed

lemma consumed_simps [simp]:
  "consumed s OutOfFuel = False" "consumed s Fail = True" "consumed s (Ok v r) = (length r < length s)"
  by (simp_all add: consumed_def)

text \<open>The fuel that \<open>JSON_parse\<close> passes is never used up.\<close>

lemma json_fuel:
  "(2 * length s < n \<longrightarrow> consumed s (json_value n s))
   \<and> (2 * length s + 1 < n \<longrightarrow> consumed s (json_elems n s))
   \<and> (2 * length s < n \<longrightarrow> consumed s (json_members n s))"
proof (induction n arbitrary: s)
  case 0
  then show ?case by simp
next
  case (Suc n)
  have V: "2 * length t < n \<Longrightarrow> consumed t (json_value n t)" for t
    using Suc.IH [of t] by simp
  have E: "2 * length t + 1 < n \<Longrightarrow> consumed t (json_elems n t)" for t
    using Suc.IH [of t] by simp
  have M: "2 * length t < n \<Longrightarrow> consumed t (json_members n t)" for t
    using Suc.IH [of t] by simp
  have val: "consumed s (json_value (Suc n) s)" if fuel: "2 * length s < Suc n"
  proof (cases "skip_ws s")
    case Nil
    then show ?thesis by simp
  next
    case (Cons c cs)
    with length_skip_ws [of s] have len: "length cs < length s" by simp
    have str: "consumed s (case json_chars cs of None \<Rightarrow> Fail | Some (str, r) \<Rightarrow> Ok (Str str) r)"
      using json_chars_shorter [of cs] len by (auto split: option.splits)
    have arr: "consumed s (case json_elems n cs of OutOfFuel \<Rightarrow> OutOfFuel | Fail \<Rightarrow> Fail
                           | Ok vs r \<Rightarrow> Ok (Arr vs) r)"
      using E [of cs] len fuel by (cases "json_elems n cs") auto
    have ob: "consumed s (case json_members n cs of OutOfFuel \<Rightarrow> OutOfFuel | Fail \<Rightarrow> Fail
                           | Ok ps r \<Rightarrow> Ok (Obj (foldl (\<lambda>ob (k, v). defineProperty ob k v) [] ps)) r)"
      using M [of cs] len fuel by (cases "json_members n cs") auto
    have num: "consumed s (case json_number (c # cs) of None \<Rightarrow> Fail | Some (r, rest) \<Rightarrow> Ok (Num r) rest)"
      using json_number_shorter [of "c # cs"] len by (auto split: option.splits)
    have sk: "length ds < length s" if "skip_ws cs = d # ds" for d ds
      using length_skip_ws [of cs] len that by simp
    show ?thesis
      using Cons str arr ob num sk len by (auto split: list.splits)
  qed
  have elms: "consumed s (json_elems (Suc n) s)" if fuel: "2 * length s + 1 < Suc n"
  proof (cases "json_value n s")
    case OutOfFuel
    with V [of s] fuel show ?thesis by simp
  next
    case Fail
    then show ?thesis by simp
  next
    case (Ok v r)
    with V [of s] fuel have r: "length r < length s" by simp
    show ?thesis
    proof (cases "skip_ws r")
      case Nil
      with Ok show ?thesis by simp
    next
      case (Cons c r')
      with length_skip_ws [of r] r have r': "length r' + 1 < length s" by simp
      with E [of r'] fuel have "consumed r' (json_elems n r')" by simp
      with Ok Cons r' show ?thesis by (cases "json_elems n r'") auto
    qed
  qed
  have mems: "consumed s (json_members (Suc n) s)" if fuel: "2 * length s < Suc n"
  proof (cases "skip_ws s")
    case Nil
    then show ?thesis by simp
  next
    case (Cons q cs)
    with length_skip_ws [of s] have len: "length cs < length s" by simp
    show ?thesis
    proof (cases "json_chars cs")
      case None
      with Cons show ?thesis by simp
    next
      case (Some kr)
      obtain key r where kr: "kr = (key, r)" by (cases kr)
      with Some json_chars_shorter [of cs key r] len have r: "length r + 1 < length s" by simp
      show ?thesis
      proof (cases "skip_ws r")
        case Nil
        with Cons Some kr show ?thesis by simp
      next
        case c: (Cons c r1)
        with length_skip_ws [of r] r have r1: "length r1 + 2 < length s" by simp
        show ?thesis
        proof (cases "json_value n r1")
          case OutOfFuel
          with V [of r1] r1 fuel show ?thesis by simp
        next
          case Fail
          with Cons Some kr c show ?thesis by simp
        next
          case (Ok v r2)
          with V [of r1] r1 fuel have r2: "length r2 + 3 < length s" by simp
          show ?thesis
          proof (cases "skip_ws r2")
            case Nil
            with Cons Some kr c Ok show ?thesis by simp
          next
            case e: (Cons e r3)
            with length_skip_ws [of r2] r2 have r3: "length r3 + 4 < length s" by simp
            with M [of r3] fuel have "consumed r3 (json_members n r3)" by simp
            with Cons Some kr c Ok e r3 show ?thesis by (cases "json_members n r3") auto
          qed
        qed
      qed
    qed
  qed
  from val elms mems show ?case by blast
qed
lemma JSON_parse_fuel: "json_value (2 * length s + 1) s \<noteq> OutOfFuel"
  using json_fuel [of s "2 * length s + 1"] by auto

text \<open>Unfolding the descent at a numeral, for evaluation.\<close>

lemmas json_value_numeral = json_value.simps(2) [of "pred_numeral k" for k, folded numeral_eq_Suc]
lemmas json_elems_numeral = json_elems.simps(2) [of "pred_numeral k" for k, folded numeral_eq_Suc]
lemmas json_members_numeral = json_members.simps(2) [of "pred_numeral k" for k, folded numeral_eq_Suc]

lemmas js_eval = js_def trim_def is_ws_def elem_at_def JSON_parse_def skip_ws_def json_ws_def
  json_value_numeral json_elems_numeral json_members_numeral obj_def process_def Let_def

section \<open>Properties of the scanner\<close>

declare utf8_decode.simps(2) [simp del]

lemma scan_append:
  "scan B prev s (xs @ ys) =
     (case scan B prev s xs of
        Inl e \<Rightarrow> Inl e
      | Inr s' \<Rightarrow> scan B (if xs = [] then prev else Some (last xs)) s' ys)"
  by (induction xs arbitrary: prev s) (auto split: sum.splits)

lemma scan_append_Inr:
  "scan B prev s xs = Inr s' \<Longrightarrow> xs \<noteq> [] \<Longrightarrow> scan B prev s (xs @ ys) = scan B (Some (last xs)) s' ys"
  by (simp add: scan_append)

lemma step_line_byte:
  "\<not> is_nl b \<Longrightarrow> state s \<noteq> 4 \<Longrightarrow> step B prev s b = Inr (s\<lparr>lastline := lastline s @ [b]\<rparr>)"
  by (simp add: step_def is_nl_def Let_def)

lemma scan_line:
  "one_line l \<Longrightarrow> state s \<noteq> 4 \<Longrightarrow> scan B prev s l = Inr (s\<lparr>lastline := lastline s @ l\<rparr>)"
  by (induction l arbitrary: prev s) (simp_all add: one_line_def step_line_byte)

lemma scan_CRLF_0:
  "state s = 0 \<Longrightarrow> scan B prev s CRLF =
     Inr (s\<lparr>state := (if js ''--'' @ B = toString (lastline s) then 1 else 0), lastline := []\<rparr>)"
  by (simp add: CRLF_def CR_def LF_def step_def Let_def)

lemma scan_CRLF_1:
  "state s = 1 \<Longrightarrow> scan B prev s CRLF =
     Inr (s\<lparr>header_v := toString (lastline s), state := 2, lastline := []\<rparr>)"
  by (simp add: CRLF_def CR_def LF_def step_def Let_def)

lemma scan_CRLF_2:
  "state s = 2 \<Longrightarrow> scan B prev s CRLF =
     Inr (s\<lparr>info_v := toString (lastline s), state := 3, lastline := []\<rparr>)"
  by (simp add: CRLF_def CR_def LF_def step_def Let_def)

lemma scan_CRLF_3:
  "state s = 3 \<Longrightarrow> scan B prev s CRLF =
     Inr (s\<lparr>fieldInfo_v := toString (lastline s), state := 4, buffer := [], lastline := []\<rparr>)"
  by (simp add: CRLF_def CR_def LF_def step_def Let_def)

lemma scan_CRLF_5:
  "state s = 5 \<Longrightarrow> scan B prev s CRLF = Inr (s\<lparr>state := 1\<rparr>)"
  by (simp add: CRLF_def CR_def LF_def step_def Let_def)

lemma step4_nomatch:
  assumes "state s = 4"
    and "l1 = (if is_nl b then lastline s else lastline s @ [b])"
    and "w = (if length l1 > length B + 4 then [] else l1)"
    and "toString w \<noteq> js ''--'' @ B"
  shows "step B prev s b =
           Inr (s\<lparr>buffer := buffer s @ [b],
                  lastline := (if b = 0x0a \<and> prev = Some 0x0d then [] else w)\<rparr>)"
  using assms by (auto simp: step_def Let_def is_nl_def)

lemma step4_match:
  assumes "state s = 4" and "\<not> is_nl b"
    and "length (lastline s @ [b]) \<le> length B + 4"
    and "toString (lastline s @ [b]) = js ''--'' @ B"
  shows "step B prev s b =
           (case process \<lparr>header = header_v s, info = info_v s,
                           part = slice0 (buffer s)
                                    (int (length (buffer s)) - int (length (lastline s @ [b])) - 1),
                           fieldInfo = fieldInfo_v s\<rparr> of
              Inl e \<Rightarrow> Inl e
            | Inr r \<Rightarrow>
                Inr (s\<lparr>allParts := allParts s @ [r], buffer := [], lastline := [],
                       state := 5, header_v := [], info_v := []\<rparr>))"
  using assms by (auto simp: step_def Let_def is_nl_def split: sum.splits)

lemma token_ascii: "token B \<Longrightarrow> list_all (\<lambda>c. c < 0x80) (dash_boundary B)"
  by (simp add: token_def dash_boundary_def js_def list_all_iff)

lemma token_one_line: "token B \<Longrightarrow> one_line (dash_boundary B)"
  by (simp add: token_def dash_boundary_def js_def one_line_def is_nl_def list_all_iff)

lemma toString_eq_dash:
  "token B \<Longrightarrow> toString w = js ''--'' @ B \<longleftrightarrow> w = dash_boundary B"
  using toString_eq_ascii [OF token_ascii, of B w] by (simp add: dash_boundary_def)

text \<open>Content that nowhere shows the delimiter is appended to the buffer whole.\<close>

lemma scan_body:
  assumes "token B"
  shows "state s = 4 \<Longrightarrow>
         \<not> sublist (dash_boundary B) (lastline s @ filter (\<lambda>b. \<not> is_nl b) d) \<Longrightarrow>
         \<exists>w. scan B prev s d = Inr (s\<lparr>buffer := buffer s @ d, lastline := w\<rparr>)
              \<and> suffix w (lastline s @ filter (\<lambda>b. \<not> is_nl b) d)"
proof (induction d arbitrary: s prev)
  case Nil
  have "s\<lparr>buffer := buffer s, lastline := lastline s\<rparr> = s" by simp
  then show ?case by (intro exI [of _ "lastline s"]) simp
next
  case (Cons b d)
  define l1 where "l1 = (if is_nl b then lastline s else lastline s @ [b])"
  define w where "w = (if length l1 > length B + 4 then [] else l1)"
  define w' where "w' = (if b = 0x0a \<and> prev = Some 0x0d then [] else w)"
  have whole: "lastline s @ filter (\<lambda>b. \<not> is_nl b) (b # d) = l1 @ filter (\<lambda>b. \<not> is_nl b) d"
    by (simp add: l1_def)
  have sw: "suffix w l1" by (simp add: w_def)
  have sw': "suffix w' l1" using sw by (simp add: w'_def)
  have nosub: "\<not> sublist (dash_boundary B) (l1 @ filter (\<lambda>b. \<not> is_nl b) d)"
    using Cons.prems(2) whole by simp
  have "w \<noteq> dash_boundary B"
  proof
    assume "w = dash_boundary B"
    with sw obtain p where "l1 = p @ dash_boundary B" by (auto simp: suffix_def)
    then have "sublist (dash_boundary B) (l1 @ filter (\<lambda>b. \<not> is_nl b) d)"
      by (auto simp: sublist_def)
    with nosub show False by simp
  qed
  then have "toString w \<noteq> js ''--'' @ B"
    by (simp add: toString_eq_dash [OF assms])
  from step4_nomatch [OF Cons.prems(1) l1_def w_def this, of prev]
  have st: "step B prev s b = Inr (s\<lparr>buffer := buffer s @ [b], lastline := w'\<rparr>)"
    by (simp add: w'_def)
  let ?s' = "s\<lparr>buffer := buffer s @ [b], lastline := w'\<rparr>"
  from sw' obtain p where p: "l1 = p @ w'" by (auto simp: suffix_def)
  have "\<not> sublist (dash_boundary B) (lastline ?s' @ filter (\<lambda>b. \<not> is_nl b) d)"
  proof
    assume "sublist (dash_boundary B) (lastline ?s' @ filter (\<lambda>b. \<not> is_nl b) d)"
    then obtain x y where "w' @ filter (\<lambda>b. \<not> is_nl b) d = x @ dash_boundary B @ y"
      by (auto simp: sublist_def)
    then have "l1 @ filter (\<lambda>b. \<not> is_nl b) d = (p @ x) @ dash_boundary B @ y"
      using p by simp
    then have "sublist (dash_boundary B) (l1 @ filter (\<lambda>b. \<not> is_nl b) d)"
      unfolding sublist_def by blast
    with nosub show False by simp
  qed
  from Cons.IH [of ?s', OF _ this, of "Some b"] Cons.prems(1)
  obtain w2 where w2: "scan B (Some b) ?s' d = Inr (?s'\<lparr>buffer := buffer ?s' @ d, lastline := w2\<rparr>)"
    and s2: "suffix w2 (lastline ?s' @ filter (\<lambda>b. \<not> is_nl b) d)"
    by auto
  have "suffix w2 (lastline s @ filter (\<lambda>b. \<not> is_nl b) (b # d))"
    using s2 p whole by (auto simp: suffix_def)
  moreover have "scan B prev s (b # d) = Inr (s\<lparr>buffer := buffer s @ b # d, lastline := w2\<rparr>)"
    using st w2 by simp
  ultimately show ?case by blast
qed

lemma scan_body_CRLF:
  assumes "token B" and "state s = 4"
    and "\<not> sublist (dash_boundary B) (lastline s @ filter (\<lambda>b. \<not> is_nl b) d)"
  shows "scan B prev s (d @ CRLF) = Inr (s\<lparr>buffer := buffer s @ d @ CRLF, lastline := []\<rparr>)"
proof -
  have f: "filter (\<lambda>b. \<not> is_nl b) (d @ [CR]) = filter (\<lambda>b. \<not> is_nl b) d"
    by (simp add: is_nl_def CR_def)
  from scan_body [OF assms(1,2), of "d @ [CR]" prev] assms(3) f
  obtain w where w: "scan B prev s (d @ [CR]) = Inr (s\<lparr>buffer := buffer s @ d @ [CR], lastline := w\<rparr>)"
    and sw: "suffix w (lastline s @ filter (\<lambda>b. \<not> is_nl b) d)"
    by auto
  let ?s1 = "s\<lparr>buffer := buffer s @ d @ [CR], lastline := w\<rparr>"
  define w' where "w' = (if length w > length B + 4 then [] else w)"
  have "suffix w' w" by (simp add: w'_def)
  with sw have "suffix w' (lastline s @ filter (\<lambda>b. \<not> is_nl b) d)"
    using suffix_order.trans by blast
  with assms(3) have "w' \<noteq> dash_boundary B"
    using suffix_imp_sublist by blast
  then have nm: "toString w' \<noteq> js ''--'' @ B"
    by (simp add: toString_eq_dash [OF assms(1)])
  have "step B (Some CR) ?s1 LF = Inr (?s1\<lparr>buffer := buffer ?s1 @ [LF], lastline := []\<rparr>)"
    using step4_nomatch [of ?s1 w LF w' B "Some CR"] assms(2) nm
    by (simp add: w'_def is_nl_def LF_def CR_def)
  then have "scan B (Some CR) ?s1 [LF] = Inr (s\<lparr>buffer := buffer s @ d @ CRLF, lastline := []\<rparr>)"
    by (simp add: CRLF_def)
  moreover have "scan B prev s (d @ CRLF) = scan B (Some CR) ?s1 [LF]"
    using scan_append_Inr [OF w, of "[LF]"] by (simp add: CRLF_def)
  ultimately show ?thesis by simp
qed

lemma dash_boundary_not_Nil: "dash_boundary B \<noteq> []"
  by (simp add: dash_boundary_def js_def)

lemma length_dash_boundary: "length (dash_boundary B) = length B + 2"
  by (simp add: dash_boundary_def js_def)

text \<open>The delimiter short of its last byte, read at the start of a line of the content.\<close>

lemma scan_delimiter_prefix:
  assumes "token B"
  shows "strict_prefix l (dash_boundary B) \<Longrightarrow> state s = 4 \<Longrightarrow> lastline s = [] \<Longrightarrow>
         scan B prev s l = Inr (s\<lparr>buffer := buffer s @ l, lastline := l\<rparr>)"
proof (induction l arbitrary: prev rule: rev_induct)
  case Nil
  then have "s\<lparr>buffer := buffer s, lastline := []\<rparr> = s" by simp
  then show ?case by simp
next
  case (snoc b l)
  from snoc.prems(1) have sp: "strict_prefix l (dash_boundary B)"
    by (auto simp: strict_prefix_def prefix_def)
  let ?s1 = "s\<lparr>buffer := buffer s @ l, lastline := l\<rparr>"
  have s1: "scan B prev s l = Inr ?s1"
    using snoc.IH [OF sp snoc.prems(2,3)] .
  from snoc.prems(1) have "b \<in> set (dash_boundary B)"
    by (auto simp: strict_prefix_def prefix_def)
  with token_one_line [OF assms] have nb: "\<not> is_nl b"
    by (simp add: one_line_def list_all_iff)
  from snoc.prems(1) have len: "length (l @ [b]) < length (dash_boundary B)"
    by (metis prefix_length_less)
  have ne: "l @ [b] \<noteq> dash_boundary B"
    using snoc.prems(1) by (simp add: strict_prefix_def)
  have "step B p ?s1 b = Inr (?s1\<lparr>buffer := buffer ?s1 @ [b], lastline := l @ [b]\<rparr>)" for p
    using step4_nomatch [of ?s1 "l @ [b]" b "l @ [b]" B p] snoc.prems(2) nb len ne
    by (simp add: toString_eq_dash [OF assms] length_dash_boundary is_nl_def)
  then have "scan B p ?s1 [b] = Inr (s\<lparr>buffer := buffer s @ l @ [b], lastline := l @ [b]\<rparr>)" for p
    by simp
  then show ?case
    by (simp add: scan_append s1)
qed

lemma scan_delimiter:
  assumes "token B" and "state s = 4" and "lastline s = []"
  shows "scan B prev s (dash_boundary B) =
           (case process \<lparr>header = header_v s, info = info_v s,
                           part = slice0 (buffer s @ butlast (dash_boundary B))
                                    (int (length (buffer s)) - 2),
                           fieldInfo = fieldInfo_v s\<rparr> of
              Inl e \<Rightarrow> Inl e
            | Inr r \<Rightarrow>
                Inr (s\<lparr>allParts := allParts s @ [r], buffer := [], lastline := [],
                       state := 5, header_v := [], info_v := []\<rparr>))"
proof -
  let ?D = "dash_boundary B"
  let ?s1 = "s\<lparr>buffer := buffer s @ butlast ?D, lastline := butlast ?D\<rparr>"
  have D: "butlast ?D @ [last ?D] = ?D"
    using dash_boundary_not_Nil by simp
  have "strict_prefix (butlast ?D) ?D"
    by (metis D strict_prefixI' append_Nil2)
  from scan_delimiter_prefix [OF assms(1) this assms(2,3)]
  have s1: "scan B prev s (butlast ?D) = Inr ?s1" .
  have "last ?D \<in> set ?D" using dash_boundary_not_Nil by simp
  with token_one_line [OF assms(1)] have nb: "\<not> is_nl (last ?D)"
    by (simp add: one_line_def list_all_iff)
  have "step B p ?s1 (last ?D) =
           (case process \<lparr>header = header_v s, info = info_v s,
                           part = slice0 (buffer s @ butlast ?D) (int (length (buffer s)) - 2),
                           fieldInfo = fieldInfo_v s\<rparr> of
              Inl e \<Rightarrow> Inl e
            | Inr r \<Rightarrow>
                Inr (s\<lparr>allParts := allParts s @ [r], buffer := [], lastline := [],
                       state := 5, header_v := [], info_v := []\<rparr>))" for p
    using step4_match [of ?s1 "last ?D" B p] assms(2) nb D
    by (simp add: toString_eq_dash [OF assms(1)] length_dash_boundary split: sum.splits)
  then have "scan B p ?s1 [last ?D] =
           (case process \<lparr>header = header_v s, info = info_v s,
                           part = slice0 (buffer s @ butlast ?D) (int (length (buffer s)) - 2),
                           fieldInfo = fieldInfo_v s\<rparr> of
              Inl e \<Rightarrow> Inl e
            | Inr r \<Rightarrow>
                Inr (s\<lparr>allParts := allParts s @ [r], buffer := [], lastline := [],
                       state := 5, header_v := [], info_v := []\<rparr>))" for p
    by (simp split: sum.splits)
  moreover have "scan B prev s ?D = scan B (if butlast ?D = [] then prev else Some (last (butlast ?D))) ?s1 [last ?D]"
    using scan_append [of B prev s "butlast ?D" "[last ?D]"] s1 D by simp
  ultimately show ?thesis by simp
qed

lemma scan_then:
  "scan B prev s xs = Inr s' \<Longrightarrow> (\<And>p. scan B p s' ys = R) \<Longrightarrow> scan B prev s (xs @ ys) = R"
  by (simp add: scan_append)

lemma scan_line_1:
  "one_line l \<Longrightarrow> state s = 1 \<Longrightarrow> lastline s = [] \<Longrightarrow>
   scan B prev s (l @ CRLF) = Inr (s\<lparr>header_v := toString l, state := 2, lastline := []\<rparr>)"
  using scan_then [OF scan_line [of l s B prev], of CRLF] scan_CRLF_1 [of "s\<lparr>lastline := lastline s @ l\<rparr>" B]
  by simp

lemma scan_line_2:
  "one_line l \<Longrightarrow> state s = 2 \<Longrightarrow> lastline s = [] \<Longrightarrow>
   scan B prev s (l @ CRLF) = Inr (s\<lparr>info_v := toString l, state := 3, lastline := []\<rparr>)"
  using scan_then [OF scan_line [of l s B prev], of CRLF] scan_CRLF_2 [of "s\<lparr>lastline := lastline s @ l\<rparr>" B]
  by simp

lemma scan_line_3:
  "one_line l \<Longrightarrow> state s = 3 \<Longrightarrow> lastline s = [] \<Longrightarrow>
   scan B prev s (l @ CRLF) =
     Inr (s\<lparr>fieldInfo_v := toString l, state := 4, buffer := [], lastline := []\<rparr>)"
  using scan_then [OF scan_line [of l s B prev], of CRLF] scan_CRLF_3 [of "s\<lparr>lastline := lastline s @ l\<rparr>" B]
  by simp

lemma slice0_append: "slice0 (d @ x) (int (length d)) = d"
  by (simp add: slice0_def)

text \<open>The content of a part and the delimiter after it, read in state 4 from the start of a line.\<close>

lemma scan_content:
  assumes "token B" and "state s = 4" and "lastline s = []" and "buffer s = []"
    and "case c of None \<Rightarrow> True
         | Some d \<Rightarrow> \<not> sublist (dash_boundary B) (filter (\<lambda>b. \<not> is_nl b) d)"
  shows "scan B prev s ((case c of None \<Rightarrow> [] | Some d \<Rightarrow> d @ CRLF) @ dash_boundary B) =
           (case process \<lparr>header = header_v s, info = info_v s,
                           part = (case c of
                                     None \<Rightarrow> slice0 (butlast (dash_boundary B)) (- 2)
                                   | Some d \<Rightarrow> d),
                           fieldInfo = fieldInfo_v s\<rparr> of
              Inl e \<Rightarrow> Inl e
            | Inr r \<Rightarrow>
                Inr (s\<lparr>allParts := allParts s @ [r], buffer := [], lastline := [],
                       state := 5, header_v := [], info_v := []\<rparr>))"
proof (cases c)
  case None
  then show ?thesis
    using scan_delimiter [OF assms(1,2,3), of prev] assms(4) by simp
next
  case (Some d)
  let ?s1 = "s\<lparr>buffer := buffer s @ d @ CRLF, lastline := []\<rparr>"
  have 1: "scan B prev s (d @ CRLF) = Inr ?s1"
    using scan_body_CRLF [OF assms(1,2), of d prev] assms(3,5) Some by simp
  have 2: "scan B p ?s1 (dash_boundary B) =
           (case process \<lparr>header = header_v s, info = info_v s, part = d,
                           fieldInfo = fieldInfo_v s\<rparr> of
              Inl e \<Rightarrow> Inl e
            | Inr r \<Rightarrow>
                Inr (s\<lparr>allParts := allParts s @ [r], buffer := [], lastline := [],
                       state := 5, header_v := [], info_v := []\<rparr>))" for p
    using scan_delimiter [OF assms(1), of ?s1 p] assms(2,4) slice0_append [of d "CRLF @ butlast (dash_boundary B)"]
    by (simp add: CRLF_def split: sum.splits)
  from scan_then [OF 1 2] Some show ?thesis by simp
qed

lemma scan_segment:
  assumes "token B" and "well_formed B sg" and "state s = 1" and "lastline s = []"
  shows "scan B prev s (enc_part sg @ dash_boundary B) =
           (case process (raw B sg) of
              Inl e \<Rightarrow> Inl e
            | Inr r \<Rightarrow>
                Inr (s\<lparr>allParts := allParts s @ [r], buffer := [], lastline := [], state := 5,
                       header_v := [], info_v := [], fieldInfo_v := fieldInfo (raw B sg)\<rparr>))"
proof (cases sg)
  case (Segment l1 l2 l3 c)
  let ?s1 = "s\<lparr>header_v := toString l1, state := 2, lastline := []\<rparr>"
  let ?s2 = "?s1\<lparr>info_v := toString l2, state := 3, lastline := []\<rparr>"
  let ?s3 = "?s2\<lparr>fieldInfo_v := toString l3, state := 4, buffer := [], lastline := []\<rparr>"
  let ?rest3 = "(case c of None \<Rightarrow> [] | Some d \<Rightarrow> d @ CRLF) @ dash_boundary B"
  from assms(2) Segment have wf: "one_line l1" "one_line l2" "one_line l3"
    "case c of None \<Rightarrow> True | Some d \<Rightarrow> \<not> sublist (dash_boundary B) (filter (\<lambda>b. \<not> is_nl b) d)"
    by simp_all
  have 1: "scan B p s (l1 @ CRLF) = Inr ?s1" for p
    using scan_line_1 [OF wf(1) assms(3,4)] .
  have 2: "scan B p ?s1 (l2 @ CRLF) = Inr ?s2" for p
    using scan_line_2 [OF wf(2), of ?s1] by simp
  have 3: "scan B p ?s2 (l3 @ CRLF) = Inr ?s3" for p
    using scan_line_3 [OF wf(3), of ?s2] by simp
  have 4: "scan B p ?s3 ?rest3 =
           (case process (raw B sg) of
              Inl e \<Rightarrow> Inl e
            | Inr r \<Rightarrow>
                Inr (s\<lparr>allParts := allParts s @ [r], buffer := [], lastline := [], state := 5,
                       header_v := [], info_v := [], fieldInfo_v := fieldInfo (raw B sg)\<rparr>))" for p
    using scan_content [OF assms(1) _ _ _ wf(4), of ?s3 p] Segment
    by (simp split: sum.splits)
  have "enc_part sg @ dash_boundary B = (l1 @ CRLF) @ (l2 @ CRLF) @ (l3 @ CRLF) @ ?rest3"
    using Segment by simp
  then show ?thesis
    using scan_then [OF 1 scan_then [OF 2 scan_then [OF 3 4]], of prev] by simp
qed

lemma assemble_append:
  "assemble (xs @ ys) =
     (case assemble xs of
        Inl e \<Rightarrow> Inl e
      | Inr rs \<Rightarrow> (case assemble ys of Inl e \<Rightarrow> Inl e | Inr rs' \<Rightarrow> Inr (rs @ rs')))"
  by (induction xs) (auto split: sum.splits)

text \<open>
  Parts, each followed by a delimiter line, read from the start of a header line: the
  scanner is at the start of a header line again, with the assembled parts appended.
\<close>

lemma scan_segments:
  assumes "token B"
  shows "list_all (well_formed B) sgs \<Longrightarrow> state s = 1 \<Longrightarrow> lastline s = [] \<Longrightarrow>
         (case assemble (map (raw B) sgs) of
            Inl e \<Rightarrow>
              scan B prev s (concat (map (\<lambda>sg. enc_part sg @ dash_boundary B @ CRLF) sgs)) = Inl e
          | Inr rs \<Rightarrow>
              (\<exists>s'. scan B prev s (concat (map (\<lambda>sg. enc_part sg @ dash_boundary B @ CRLF) sgs)) = Inr s'
                    \<and> state s' = 1 \<and> lastline s' = [] \<and> allParts s' = allParts s @ rs))"
proof (induction sgs arbitrary: s prev)
  case Nil
  then show ?case by simp
next
  case (Cons sg sgs)
  let ?rest = "concat (map (\<lambda>sg. enc_part sg @ dash_boundary B @ CRLF) sgs)"
  have body: "concat (map (\<lambda>sg. enc_part sg @ dash_boundary B @ CRLF) (sg # sgs))
                = (enc_part sg @ dash_boundary B) @ CRLF @ ?rest"
    by simp
  from Cons.prems have wf: "well_formed B sg" "list_all (well_formed B) sgs" by simp_all
  note seg = scan_segment [OF assms wf(1) Cons.prems(2,3), of prev]
  show ?case
  proof (cases "process (raw B sg)")
    case (Inl e)
    with seg have "scan B prev s (enc_part sg @ dash_boundary B) = Inl e" by simp
    then have "scan B prev s ((enc_part sg @ dash_boundary B) @ CRLF @ ?rest) = Inl e"
      by (simp only: scan_append sum.case)
    with Inl show ?thesis by (simp only: body) simp
  next
    case (Inr r)
    let ?s5 = "s\<lparr>allParts := allParts s @ [r], buffer := [], lastline := [], state := 5,
                  header_v := [], info_v := [], fieldInfo_v := fieldInfo (raw B sg)\<rparr>"
    from seg Inr have 1: "scan B prev s (enc_part sg @ dash_boundary B) = Inr ?s5" by simp
    have 2: "scan B p ?s5 CRLF = Inr (?s5\<lparr>state := 1\<rparr>)" for p
      using scan_CRLF_5 [of ?s5 B p] by simp
    have ih: "case assemble (map (raw B) sgs) of
            Inl e \<Rightarrow> scan B p (?s5\<lparr>state := 1\<rparr>) ?rest = Inl e
          | Inr rs \<Rightarrow>
              (\<exists>s'. scan B p (?s5\<lparr>state := 1\<rparr>) ?rest = Inr s'
                    \<and> state s' = 1 \<and> lastline s' = [] \<and> allParts s' = (allParts s @ [r]) @ rs)" for p
      using Cons.IH [OF wf(2), of "?s5\<lparr>state := 1\<rparr>" p]
      by (cases "assemble (map (raw B) sgs)") simp_all
    have 3: "scan B prev s ((enc_part sg @ dash_boundary B) @ CRLF @ ?rest)
               = scan B (Some LF) (?s5\<lparr>state := 1\<rparr>) ?rest"
    proof -
      have "scan B prev s ((enc_part sg @ dash_boundary B) @ CRLF @ ?rest)
              = scan B (Some (last (enc_part sg @ dash_boundary B))) ?s5 (CRLF @ ?rest)"
        using dash_boundary_not_Nil by (intro scan_append_Inr [OF 1]) simp
      also have "\<dots> = scan B (Some (last CRLF)) (?s5\<lparr>state := 1\<rparr>) ?rest"
        by (intro scan_append_Inr [OF 2]) (simp add: CRLF_def)
      finally show ?thesis by (simp add: CRLF_def)
    qed
    show ?thesis
      using ih [of "Some LF"] Inr by (simp only: body 3) (auto split: sum.splits)
  qed
qed

lemma encode_parts_shift:
  "encode_parts B sgs @ dash_boundary B @ CRLF @ X =
     dash_boundary B @ CRLF @ concat (map (\<lambda>sg. enc_part sg @ dash_boundary B @ CRLF) sgs) @ X"
  by (induction sgs) (simp_all add: encode_parts_def)

text \<open>The first delimiter line, read from the initial state.\<close>

lemma scan_first_delimiter:
  assumes "token B"
  shows "scan B prev init (dash_boundary B @ CRLF) = Inr (init\<lparr>state := 1\<rparr>)"
proof -
  have "scan B prev init (dash_boundary B) = Inr (init\<lparr>lastline := dash_boundary B\<rparr>)"
    using scan_line [OF token_one_line [OF assms], of init B prev] by (simp add: init_def)
  moreover have "scan B p (init\<lparr>lastline := dash_boundary B\<rparr>) CRLF = Inr (init\<lparr>state := 1\<rparr>)" for p
    using scan_CRLF_0 [of "init\<lparr>lastline := dash_boundary B\<rparr>" B p]
      toString_ascii [OF token_ascii [OF assms]]
    by (simp add: init_def dash_boundary_def)
  ultimately show ?thesis by (rule scan_then)
qed


lemma scan_closing:
  "state s = 5 \<Longrightarrow>
   scan B prev s (js ''--'' @ CRLF) = Inr (s\<lparr>lastline := lastline s @ js ''--'', state := 1\<rparr>)"
proof -
  assume s: "state s = 5"
  have "one_line (js ''--'')" by (simp add: one_line_def js_def is_nl_def)
  from scan_line [OF this, of s B prev] s
  have 1: "scan B prev s (js ''--'') = Inr (s\<lparr>lastline := lastline s @ js ''--''\<rparr>)" by simp
  have 2: "scan B p (s\<lparr>lastline := lastline s @ js ''--''\<rparr>) CRLF
             = Inr (s\<lparr>lastline := lastline s @ js ''--'', state := 1\<rparr>)" for p
    using scan_CRLF_5 [of "s\<lparr>lastline := lastline s @ js ''--''\<rparr>" B p] s by simp
  from scan_then [OF 1 2] show ?thesis .
qed

text \<open>The last part with the closing delimiter after it, read from the start of its header line.\<close>

lemma scan_last_segment:
  assumes "token B" and "well_formed B sg" and "state s = 1" and "lastline s = []"
  shows "case process (raw B sg) of
           Inl e \<Rightarrow> scan B prev s (enc_part sg @ dash_boundary B @ js ''--'' @ CRLF) = Inl e
         | Inr r \<Rightarrow>
             (\<exists>s'. scan B prev s (enc_part sg @ dash_boundary B @ js ''--'' @ CRLF) = Inr s'
                   \<and> allParts s' = allParts s @ [r])"
proof (cases "process (raw B sg)")
  case (Inl e)
  with scan_segment [OF assms, of prev]
  have "scan B prev s (enc_part sg @ dash_boundary B) = Inl e" by simp
  then have "scan B prev s ((enc_part sg @ dash_boundary B) @ js ''--'' @ CRLF) = Inl e"
    by (simp only: scan_append sum.case)
  with Inl show ?thesis by simp
next
  case (Inr r)
  let ?s5 = "s\<lparr>allParts := allParts s @ [r], buffer := [], lastline := [], state := 5,
                header_v := [], info_v := [], fieldInfo_v := fieldInfo (raw B sg)\<rparr>"
  from scan_segment [OF assms, of prev] Inr
  have 1: "scan B prev s (enc_part sg @ dash_boundary B) = Inr ?s5" by simp
  have 2: "scan B p ?s5 (js ''--'' @ CRLF) = Inr (?s5\<lparr>lastline := js ''--'', state := 1\<rparr>)" for p
    using scan_closing [of ?s5 B p] by simp
  from scan_then [OF 1 2]
  have "scan B prev s (enc_part sg @ dash_boundary B @ js ''--'' @ CRLF)
          = Inr (?s5\<lparr>lastline := js ''--'', state := 1\<rparr>)" by simp
  with Inr show ?thesis by simp
qed

text \<open>
  The scanner on a complete body: \<^verbatim>\<open>process\<close> is called once for each part, in order, on
  the lines and the content of that part, and \<^verbatim>\<open>parse\<close> returns the results or the first
  exception.
\<close>

lemma parse_encode:
  assumes "token B" and "list_all (well_formed B) sgs"
  shows "parse (encode B sgs) B = assemble (map (raw B) sgs)"
proof (cases sgs rule: rev_cases)
  case Nil
  have ol: "one_line (dash_boundary B @ js ''--'')"
    using token_one_line [OF assms(1)] by (simp add: one_line_def js_def is_nl_def)
  have asc: "list_all (\<lambda>c. c < 0x80) (dash_boundary B @ js ''--'')"
    using token_ascii [OF assms(1)] by (simp add: js_def)
  have 1: "scan B None init (dash_boundary B @ js ''--'')
             = Inr (init\<lparr>lastline := dash_boundary B @ js ''--''\<rparr>)"
    using scan_line [OF ol, of init B None] by (simp add: init_def)
  have 2: "scan B p (init\<lparr>lastline := dash_boundary B @ js ''--''\<rparr>) CRLF = Inr init" for p
    using scan_CRLF_0 [of "init\<lparr>lastline := dash_boundary B @ js ''--''\<rparr>" B p]
      toString_ascii [OF asc]
    by (simp add: init_def dash_boundary_def js_def)
  from scan_then [OF 1 2] have "scan B None init (encode B []) = Inr init"
    by (simp add: encode_def encode_parts_def)
  with Nil show ?thesis by (simp add: parse_def init_def)
next
  case (snoc sgs' sg)
  let ?mid = "concat (map (\<lambda>sg. enc_part sg @ dash_boundary B @ CRLF) sgs')"
  let ?last = "enc_part sg @ dash_boundary B @ js ''--'' @ CRLF"
  from assms(2) snoc have wf: "list_all (well_formed B) sgs'" "well_formed B sg" by simp_all
  have enc: "encode B sgs = (dash_boundary B @ CRLF) @ ?mid @ ?last"
    using encode_parts_shift [of B sgs' ?last] snoc by (simp add: encode_def encode_parts_def)
  have first: "scan B None init ((dash_boundary B @ CRLF) @ ?mid @ ?last)
                 = scan B (Some LF) (init\<lparr>state := 1\<rparr>) (?mid @ ?last)"
    using scan_append_Inr [OF scan_first_delimiter [OF assms(1), of None], of "?mid @ ?last"]
    by (simp add: CRLF_def)
  note mid = scan_segments [OF assms(1) wf(1), of "init\<lparr>state := 1\<rparr>" "Some LF"]
  have asm: "assemble (map (raw B) sgs) =
               (case assemble (map (raw B) sgs') of
                  Inl e \<Rightarrow> Inl e
                | Inr rs \<Rightarrow> (case process (raw B sg) of Inl e \<Rightarrow> Inl e | Inr r \<Rightarrow> Inr (rs @ [r])))"
    using snoc by (simp add: assemble_append split: sum.splits)
  show ?thesis
  proof (cases "assemble (map (raw B) sgs')")
    case (Inl e)
    with mid have "scan B (Some LF) (init\<lparr>state := 1\<rparr>) ?mid = Inl e"
      by (simp add: init_def)
    then have "scan B (Some LF) (init\<lparr>state := 1\<rparr>) (?mid @ ?last) = Inl e"
      by (simp only: scan_append sum.case)
    with Inl asm enc first show ?thesis by (simp add: parse_def)
  next
    case (Inr rs)
    with mid obtain s' where s': "scan B (Some LF) (init\<lparr>state := 1\<rparr>) ?mid = Inr s'"
      "state s' = 1" "lastline s' = []" "allParts s' = rs"
      by (auto simp: init_def)
    have rest: "scan B (Some LF) (init\<lparr>state := 1\<rparr>) (?mid @ ?last)
                  = scan B (if ?mid = [] then Some LF else Some (last ?mid)) s' ?last"
      using s'(1) by (simp only: scan_append sum.case)
    note lst = scan_last_segment [OF assms(1) wf(2) s'(2,3), of "if ?mid = [] then Some LF else Some (last ?mid)"]
    show ?thesis
    proof (cases "process (raw B sg)")
      case (Inl e)
      with lst Inr asm enc first rest show ?thesis by (simp add: parse_def)
    next
      case r: (Inr r)
      with lst obtain s'' where "scan B (if ?mid = [] then Some LF else Some (last ?mid)) s' ?last = Inr s''"
        "allParts s'' = allParts s' @ [r]" by auto
      with r Inr asm enc first rest s'(4) show ?thesis by (simp add: parse_def)
    qed
  qed
qed


section \<open>Properties of process and parse\<close>

lemma toString_Nil [simp]: "toString [] = []"
  by (simp add: toString_def)

lemma get_prop_defineProperty: "get_prop (defineProperty ob k v) k = Some v"
  by (induction ob k v rule: defineProperty.induct) simp_all

lemma process_data_file:
  "fieldInfo p = [] \<Longrightarrow> process p = Inr r \<Longrightarrow> get_prop r (js ''data'') = Some (Buf (part p))"
  by (auto simp: process_def Let_def get_prop_defineProperty split: sum.splits option.splits)

lemma process_data_field:
  "fieldInfo p \<noteq> [] \<Longrightarrow> process p = Inr r \<Longrightarrow> get_prop r (js ''data'') = Some (Str (fieldInfo p))"
  by (auto simp: process_def Let_def get_prop_defineProperty split: sum.splits option.splits)

lemma assemble_nth:
  "assemble ps = Inr rs \<Longrightarrow>
   length rs = length ps \<and> (\<forall>i<length ps. process (ps ! i) = Inr (rs ! i))"
proof (induction ps arbitrary: rs)
  case Nil
  then show ?case by simp
next
  case (Cons p ps)
  then obtain r rs' where r: "process p = Inr r" "assemble ps = Inr rs'" "rs = r # rs'"
    by (auto split: sum.splits)
  with Cons.IH [of rs'] show ?case
    by (auto simp: nth_Cons split: nat.splits)
qed

lemma assemble_fails:
  "p \<in> set ps \<Longrightarrow> process p = Inl e \<Longrightarrow> \<exists>e'. assemble ps = Inl e'"
  by (induction ps) (auto split: sum.splits)

lemma sublist_evals:
  "sublist [] ys \<longleftrightarrow> True"
  "sublist (x # xs) [] \<longleftrightarrow> False"
  "sublist (x # xs) (y # ys) \<longleftrightarrow> prefix (x # xs) (y # ys) \<or> sublist (x # xs) ys"
  by (simp_all add: sublist_Cons_right)

text \<open>
  C2, amended. For every body that encodes a list of parts with a boundary of ASCII
  characters other than CR and LF, where the three lines of each part hold no CR or LF byte
  and no content, read without its CR and LF bytes, shows the two dashes and the boundary,
  \<^verbatim>\<open>parse\<close> returns what \<^verbatim>\<open>process\<close> makes of each part in order, or its first exception. When it
  returns Parts there is one for each part of the body, in order; the data of a file part
  is a Buffer of exactly the payload bytes between the empty line and the CRLF before the
  next delimiter; the data of a text field with a non-empty value line is that line, decoded.
\<close>

theorem parse_data:
  assumes "token B" and "list_all (well_formed B) sgs"
  shows "parse (encode B sgs) B = assemble (map (raw B) sgs)
    \<and> (\<forall>rs. parse (encode B sgs) B = Inr rs \<longrightarrow>
          length rs = length sgs
          \<and> (\<forall>i<length sgs.
                (\<forall>h t d. sgs ! i = File h t d \<longrightarrow>
                   get_prop (rs ! i) (js ''data'') = Some (Buf d))
                \<and> (\<forall>h v. sgs ! i = Field h v \<and> v \<noteq> [] \<longrightarrow>
                      get_prop (rs ! i) (js ''data'') = Some (Str (toString v)))))"
proof (intro conjI allI impI)
  show pe: "parse (encode B sgs) B = assemble (map (raw B) sgs)"
    using parse_encode [OF assms] .
  fix rs
  assume "parse (encode B sgs) B = Inr rs"
  with pe have a: "assemble (map (raw B) sgs) = Inr rs" by simp
  from assemble_nth [OF a] show "length rs = length sgs" by simp
  fix i
  assume i: "i < length sgs"
  with assemble_nth [OF a] have p: "process (raw B (sgs ! i)) = Inr (rs ! i)" by simp
  {
    fix h t d
    assume "sgs ! i = File h t d"
    with p process_data_file [of "raw B (File h t d)" "rs ! i"]
    show "get_prop (rs ! i) (js ''data'') = Some (Buf d)"
      by (simp add: File_def toString_def)
  next
    fix h v
    assume "sgs ! i = Field h v \<and> v \<noteq> []"
    with p process_data_field [of "raw B (Field h v)" "rs ! i"]
    show "get_prop (rs ! i) (js ''data'') = Some (Str (toString v))"
      by (simp add: Field_def toString_Nil_iff)
  }
qed

lemmas body_eval = encode_def encode_parts_def dash_boundary_def Field_def File_def CRLF_def CR_def LF_def
lemmas wf_eval = token_def one_line_def is_nl_def dash_boundary_def Field_def File_def js_def sublist_evals
lemmas raw_eval = Field_def File_def toString_ascii slice0_def dash_boundary_def

text \<open>
  An instance: a field and a file whose payload holds a NUL byte, a lone CR, a byte 0xff,
  a lone LF and two dashes.
\<close>

theorem parse_data_witness:
  "token (js ''XYZ'')
   \<and> list_all (well_formed (js ''XYZ''))
        [Field (js ''Content-Disposition: form-data; name=\"t\"'') (js ''v1''),
         File (js ''Content-Disposition: form-data; name=\"f\"; filename=\"b.bin\"'')
              (js ''Content-Type: application/octet-stream'') [0x00, 0x0d, 0xff, 0x0a, 0x2d, 0x2d]]
   \<and> parse (js ''--XYZ'' @ CRLF
             @ js ''Content-Disposition: form-data; name=\"t\"'' @ CRLF @ CRLF @ js ''v1'' @ CRLF
             @ js ''--XYZ'' @ CRLF
             @ js ''Content-Disposition: form-data; name=\"f\"; filename=\"b.bin\"'' @ CRLF
             @ js ''Content-Type: application/octet-stream'' @ CRLF @ CRLF
             @ [0x00, 0x0d, 0xff, 0x0a, 0x2d, 0x2d] @ CRLF
             @ js ''--XYZ--'' @ CRLF) (js ''XYZ'')
       = Inr [[(js ''name'', Str (js ''t'')), (js ''data'', Str (js ''v1''))],
              [(js ''filename'', Str (js ''b.bin'')), (js ''name'', Str (js ''f'')),
               (js ''type'', Str (js ''application/octet-stream'')),
               (js ''data'', Buf [0x00, 0x0d, 0xff, 0x0a, 0x2d, 0x2d])]]"
proof -
  let ?B = "js ''XYZ''"
  let ?sgs = "[Field (js ''Content-Disposition: form-data; name=\"t\"'') (js ''v1''),
         File (js ''Content-Disposition: form-data; name=\"f\"; filename=\"b.bin\"'')
              (js ''Content-Type: application/octet-stream'') [0x00, 0x0d, 0xff, 0x0a, 0x2d, 0x2d]]"
  have tok: "token ?B" by (simp add: wf_eval)
  have wf: "list_all (well_formed ?B) ?sgs" by (simp add: wf_eval)
  have body: "encode ?B ?sgs = js ''--XYZ'' @ CRLF
             @ js ''Content-Disposition: form-data; name=\"t\"'' @ CRLF @ CRLF @ js ''v1'' @ CRLF
             @ js ''--XYZ'' @ CRLF
             @ js ''Content-Disposition: form-data; name=\"f\"; filename=\"b.bin\"'' @ CRLF
             @ js ''Content-Type: application/octet-stream'' @ CRLF @ CRLF
             @ [0x00, 0x0d, 0xff, 0x0a, 0x2d, 0x2d] @ CRLF
             @ js ''--XYZ--'' @ CRLF"
    by (simp add: body_eval js_def)
  have r1: "raw ?B (?sgs ! 0) = \<lparr>header = js ''Content-Disposition: form-data; name=\"t\"'', info = [],
               part = js ''--'', fieldInfo = js ''v1''\<rparr>"
    by (simp add: raw_eval js_def)
  have r2: "raw ?B (?sgs ! 1) = \<lparr>header = js ''Content-Disposition: form-data; name=\"f\"; filename=\"b.bin\"'',
               info = js ''Content-Type: application/octet-stream'',
               part = [0x00, 0x0d, 0xff, 0x0a, 0x2d, 0x2d], fieldInfo = []\<rparr>"
    by (simp add: raw_eval js_def)
  have p1: "process (raw ?B (?sgs ! 0)) = Inr [(js ''name'', Str (js ''t'')), (js ''data'', Str (js ''v1''))]"
    unfolding r1 by (simp add: js_eval)
  have p2: "process (raw ?B (?sgs ! 1)) = Inr [(js ''filename'', Str (js ''b.bin'')), (js ''name'', Str (js ''f'')),
               (js ''type'', Str (js ''application/octet-stream'')),
               (js ''data'', Buf [0x00, 0x0d, 0xff, 0x0a, 0x2d, 0x2d])]"
    unfolding r2 by (simp add: js_eval)
  from parse_data [OF tok wf] have "parse (encode ?B ?sgs) ?B = assemble (map (raw ?B) ?sgs)"
    by (rule conjunct1)
  also have "\<dots> = Inr [[(js ''name'', Str (js ''t'')), (js ''data'', Str (js ''v1''))],
              [(js ''filename'', Str (js ''b.bin'')), (js ''name'', Str (js ''f'')),
               (js ''type'', Str (js ''application/octet-stream'')),
               (js ''data'', Buf [0x00, 0x0d, 0xff, 0x0a, 0x2d, 0x2d])]]"
    using p1 p2 by simp
  finally show ?thesis using tok wf body by simp
qed

text \<open>
  C2, as stated, fails for a text field whose value has two lines: the bytes between the
  header block and the next delimiter, less the CRLF before it, are \<open>a CRLF b\<close>; the data
  of the Part is the first line alone, the field line of the scanner.
\<close>

theorem parse_data_counterexample:
  "parse (js ''--XYZ'' @ CRLF
          @ js ''Content-Disposition: form-data; name=\"t\"'' @ CRLF @ CRLF
          @ js ''a'' @ CRLF @ js ''b'' @ CRLF
          @ js ''--XYZ--'' @ CRLF) (js ''XYZ'')
     = Inr [[(js ''name'', Str (js ''t'')), (js ''data'', Str (js ''a''))]]
   \<and> js ''a'' \<noteq> js ''a'' @ CRLF @ js ''b''"
proof -
  let ?B = "js ''XYZ''"
  let ?sgs = "[Segment (js ''Content-Disposition: form-data; name=\"t\"'') [] (js ''a'') (Some (js ''b''))]"
  have tok: "token ?B" by (simp add: wf_eval)
  have wf: "list_all (well_formed ?B) ?sgs" by (simp add: wf_eval)
  have body: "encode ?B ?sgs = js ''--XYZ'' @ CRLF
          @ js ''Content-Disposition: form-data; name=\"t\"'' @ CRLF @ CRLF
          @ js ''a'' @ CRLF @ js ''b'' @ CRLF
          @ js ''--XYZ--'' @ CRLF"
    by (simp add: body_eval js_def)
  have r1: "raw ?B (?sgs ! 0) = \<lparr>header = js ''Content-Disposition: form-data; name=\"t\"'', info = [],
               part = js ''b'', fieldInfo = js ''a''\<rparr>"
    by (simp add: raw_eval js_def)
  have p1: "process (raw ?B (?sgs ! 0)) = Inr [(js ''name'', Str (js ''t'')), (js ''data'', Str (js ''a''))]"
    unfolding r1 by (simp add: js_eval)
  have "parse (encode ?B ?sgs) ?B = assemble (map (raw ?B) ?sgs)"
    using parse_encode [OF tok wf] .
  also have "\<dots> = Inr [[(js ''name'', Str (js ''t'')), (js ''data'', Str (js ''a''))]]"
    using p1 by simp
  finally show ?thesis using body by (simp add: js_def)
qed

lemma no_dash_not_sublist:
  "of_char CHR ''-'' \<notin> set d \<Longrightarrow> \<not> sublist (dash_boundary B) (filter (\<lambda>b. \<not> is_nl b) d)"
proof
  assume n: "of_char CHR ''-'' \<notin> set d"
  assume "sublist (dash_boundary B) (filter (\<lambda>b. \<not> is_nl b) d)"
  then have "set (dash_boundary B) \<subseteq> set (filter (\<lambda>b. \<not> is_nl b) d)"
    by (rule set_mono_sublist)
  then have "of_char CHR ''-'' \<in> set d"
    by (auto simp: dash_boundary_def js_def)
  with n show False by simp
qed

text \<open>
  C1. The body with the text field \<open>foo\<close> of value \<open>bar\<close> and then the file field \<open>upload\<close>,
  file name \<open>a.txt\<close>, content type \<open>text/plain\<close> and payload \<open>hello\<close> parses to exactly
  two Parts in that order, with every boundary of ASCII characters other than CR and LF.
  The file's properties are created in the order filename, name, type, data.
\<close>

theorem parse_two_parts:
  assumes "token B"
  shows "parse (encode B
           [Field (js ''Content-Disposition: form-data; name=\"foo\"'') (js ''bar''),
            File (js ''Content-Disposition: form-data; name=\"upload\"; filename=\"a.txt\"'')
                 (js ''Content-Type: text/plain'') (js ''hello'')]) B
         = Inr [[(js ''name'', Str (js ''foo'')), (js ''data'', Str (js ''bar''))],
                [(js ''filename'', Str (js ''a.txt'')), (js ''name'', Str (js ''upload'')),
                 (js ''type'', Str (js ''text/plain'')), (js ''data'', Buf (js ''hello''))]]"
proof -
  let ?f = "Field (js ''Content-Disposition: form-data; name=\"foo\"'') (js ''bar'')"
  let ?u = "File (js ''Content-Disposition: form-data; name=\"upload\"; filename=\"a.txt\"'')
                 (js ''Content-Type: text/plain'') (js ''hello'')"
  have "\<not> sublist (dash_boundary B) (filter (\<lambda>b. \<not> is_nl b) (js ''hello''))"
    by (rule no_dash_not_sublist) (simp add: js_def)
  then have wf: "list_all (well_formed B) [?f, ?u]"
    by (simp add: Field_def File_def one_line_def is_nl_def js_def)
  have r1: "raw B ?f = \<lparr>header = js ''Content-Disposition: form-data; name=\"foo\"'', info = [],
               part = slice0 (butlast (dash_boundary B)) (- 2), fieldInfo = js ''bar''\<rparr>"
    by (simp add: Field_def toString_ascii js_def)
  have r2: "raw B ?u = \<lparr>header = js ''Content-Disposition: form-data; name=\"upload\"; filename=\"a.txt\"'',
               info = js ''Content-Type: text/plain'', part = js ''hello'', fieldInfo = []\<rparr>"
    by (simp add: File_def toString_ascii js_def)
  have p1: "process (raw B ?f) = Inr [(js ''name'', Str (js ''foo'')), (js ''data'', Str (js ''bar''))]"
    unfolding r1 by (simp add: js_eval)
  have p2: "process (raw B ?u) = Inr [(js ''filename'', Str (js ''a.txt'')), (js ''name'', Str (js ''upload'')),
                 (js ''type'', Str (js ''text/plain'')), (js ''data'', Buf (js ''hello''))]"
    unfolding r2 by (simp add: js_eval)
  have "parse (encode B [?f, ?u]) B = assemble (map (raw B) [?f, ?u])"
    using parse_encode [OF assms wf] .
  also have "\<dots> = Inr [[(js ''name'', Str (js ''foo'')), (js ''data'', Str (js ''bar''))],
                [(js ''filename'', Str (js ''a.txt'')), (js ''name'', Str (js ''upload'')),
                 (js ''type'', Str (js ''text/plain'')), (js ''data'', Buf (js ''hello''))]]"
    using p1 p2 by simp
  finally show ?thesis .
qed

theorem parse_two_parts_witness:
  "token (js ''----WebKitFormBoundary7MA4YWxkTrZu0gW'')
   \<and> parse (js ''------WebKitFormBoundary7MA4YWxkTrZu0gW'' @ CRLF
            @ js ''Content-Disposition: form-data; name=\"foo\"'' @ CRLF @ CRLF
            @ js ''bar'' @ CRLF
            @ js ''------WebKitFormBoundary7MA4YWxkTrZu0gW'' @ CRLF
            @ js ''Content-Disposition: form-data; name=\"upload\"; filename=\"a.txt\"'' @ CRLF
            @ js ''Content-Type: text/plain'' @ CRLF @ CRLF
            @ js ''hello'' @ CRLF
            @ js ''------WebKitFormBoundary7MA4YWxkTrZu0gW--'' @ CRLF)
        (js ''----WebKitFormBoundary7MA4YWxkTrZu0gW'')
       = Inr [[(js ''name'', Str (js ''foo'')), (js ''data'', Str (js ''bar''))],
              [(js ''filename'', Str (js ''a.txt'')), (js ''name'', Str (js ''upload'')),
               (js ''type'', Str (js ''text/plain'')), (js ''data'', Buf (js ''hello''))]]"
proof -
  let ?B = "js ''----WebKitFormBoundary7MA4YWxkTrZu0gW''"
  have tok: "token ?B" by (simp add: wf_eval)
  have body: "encode ?B
           [Field (js ''Content-Disposition: form-data; name=\"foo\"'') (js ''bar''),
            File (js ''Content-Disposition: form-data; name=\"upload\"; filename=\"a.txt\"'')
                 (js ''Content-Type: text/plain'') (js ''hello'')]
        = js ''------WebKitFormBoundary7MA4YWxkTrZu0gW'' @ CRLF
            @ js ''Content-Disposition: form-data; name=\"foo\"'' @ CRLF @ CRLF
            @ js ''bar'' @ CRLF
            @ js ''------WebKitFormBoundary7MA4YWxkTrZu0gW'' @ CRLF
            @ js ''Content-Disposition: form-data; name=\"upload\"; filename=\"a.txt\"'' @ CRLF
            @ js ''Content-Type: text/plain'' @ CRLF @ CRLF
            @ js ''hello'' @ CRLF
            @ js ''------WebKitFormBoundary7MA4YWxkTrZu0gW--'' @ CRLF"
    by (simp add: body_eval js_def)
  from parse_two_parts [OF tok] tok show ?thesis
    unfolding body by simp
qed


lemma obj_fails:
  assumes "str = None
     \<or> (\<exists>s1. str = Some s1
            \<and> (of_char CHR ''='' \<notin> set s1
               \<or> (\<exists>k0 k1 ks. split (of_char CHR ''='') s1 = k0 # k1 # ks \<and> JSON_parse (trim k1) = None)))"
  shows "\<exists>e. obj str = Inl e"
  using assms split_no_sep [of "of_char CHR ''=''"]
  by (auto simp: obj_def elem_at_def Let_def split: option.splits)

lemma process_fails_name:
  "obj (elem_at (split (of_char CHR '';'') (header p)) 1) = Inl e \<Longrightarrow> \<exists>e'. process p = Inl e'"
  by (auto simp: process_def Let_def split: sum.splits)

lemma parse_fails:
  assumes "token B" and "list_all (well_formed B) sgs" and "sg \<in> set sgs"
    and "process (raw B sg) = Inl e"
  shows "\<exists>e'. parse (encode B sgs) B = Inl e'"
  using parse_encode [OF assms(1,2)] assemble_fails [of "raw B sg" "map (raw B) sgs" e] assms(3,4)
  by auto

text \<open>
  C5, as stated, fails: a value that is no quoted string literal but is other JSON, here
  the number 123, goes through \<^verbatim>\<open>JSON.parse\<close>, and the Part is returned with the number as
  its name.
\<close>

theorem malformed_header_counterexample:
  "parse (js ''--XYZ'' @ CRLF
          @ js ''Content-Disposition: form-data; name=123'' @ CRLF @ CRLF
          @ js ''v'' @ CRLF
          @ js ''--XYZ--'' @ CRLF) (js ''XYZ'')
     = Inr [[(js ''name'', Num 123), (js ''data'', Str (js ''v''))]]"
proof -
  let ?B = "js ''XYZ''"
  let ?sgs = "[Field (js ''Content-Disposition: form-data; name=123'') (js ''v'')]"
  have tok: "token ?B" by (simp add: wf_eval)
  have wf: "list_all (well_formed ?B) ?sgs" by (simp add: wf_eval)
  have body: "encode ?B ?sgs = js ''--XYZ'' @ CRLF
          @ js ''Content-Disposition: form-data; name=123'' @ CRLF @ CRLF
          @ js ''v'' @ CRLF
          @ js ''--XYZ--'' @ CRLF"
    by (simp add: body_eval js_def)
  have r1: "raw ?B (?sgs ! 0) = \<lparr>header = js ''Content-Disposition: form-data; name=123'', info = [],
               part = js ''--'', fieldInfo = js ''v''\<rparr>"
    by (simp add: raw_eval js_def)
  have p1: "process (raw ?B (?sgs ! 0)) = Inr [(js ''name'', Num 123), (js ''data'', Str (js ''v''))]"
    unfolding r1
    by (simp add: js_eval json_number_def json_integer_def json_fraction_def json_exponent_def
        is_digit_def digits_val_def)
  have "parse (encode ?B ?sgs) ?B = assemble (map (raw ?B) ?sgs)"
    using parse_encode [OF tok wf] .
  also have "\<dots> = Inr [[(js ''name'', Num 123), (js ''data'', Str (js ''v''))]]"
    using p1 by simp
  finally show ?thesis using body by simp
qed

text \<open>
  C5, amended. When segment 1 of a part's header line, split on \<open>;\<close>, is missing or holds
  no \<open>=\<close>, or the text between its first and second \<open>=\<close>, trimmed, is not JSON (a quoted
  string literal is JSON, and so are numbers, \<open>true\<close>, \<open>false\<close>, \<open>null\<close>, arrays and objects),
  \<^verbatim>\<open>process\<close> throws on that part, and \<^verbatim>\<open>parse\<close> of a body containing the part throws: no
  sequence of Parts is returned.
\<close>

theorem malformed_header_fails:
  assumes "token B" and "list_all (well_formed B) sgs" and "sg \<in> set sgs"
    and "elem_at (split (of_char CHR '';'') (header (raw B sg))) 1 = None
     \<or> (\<exists>s1. elem_at (split (of_char CHR '';'') (header (raw B sg))) 1 = Some s1
            \<and> (of_char CHR ''='' \<notin> set s1
               \<or> (\<exists>k0 k1 ks. split (of_char CHR ''='') s1 = k0 # k1 # ks \<and> JSON_parse (trim k1) = None)))"
  shows "(\<exists>e. process (raw B sg) = Inl e) \<and> (\<exists>e. parse (encode B sgs) B = Inl e)"
proof -
  from obj_fails [OF assms(4)] obtain e
    where "obj (elem_at (split (of_char CHR '';'') (header (raw B sg))) 1) = Inl e" ..
  from process_fails_name [OF this] obtain e' where e': "process (raw B sg) = Inl e'" ..
  from parse_fails [OF assms(1,2,3) e'] e' show ?thesis by blast
qed

text \<open>An instance: the second of two text fields has \<open>name\<close> without \<open>=\<close>.\<close>

theorem malformed_header_fails_witness:
  "token (js ''XYZ'')
   \<and> list_all (well_formed (js ''XYZ''))
        [Field (js ''Content-Disposition: form-data; name=\"a\"'') (js ''1''),
         Field (js ''Content-Disposition: form-data; name'') (js ''2'')]
   \<and> elem_at (split (of_char CHR '';'')
         (header (raw (js ''XYZ'') (Field (js ''Content-Disposition: form-data; name'') (js ''2''))))) 1
       = Some (js '' name'')
   \<and> of_char CHR ''='' \<notin> set (js '' name'')
   \<and> process (raw (js ''XYZ'') (Field (js ''Content-Disposition: form-data; name'') (js ''2'')))
       = Inl TypeError
   \<and> parse (js ''--XYZ'' @ CRLF
            @ js ''Content-Disposition: form-data; name=\"a\"'' @ CRLF @ CRLF @ js ''1'' @ CRLF
            @ js ''--XYZ'' @ CRLF
            @ js ''Content-Disposition: form-data; name'' @ CRLF @ CRLF @ js ''2'' @ CRLF
            @ js ''--XYZ--'' @ CRLF) (js ''XYZ'')
       = Inl TypeError"
proof -
  let ?B = "js ''XYZ''"
  let ?a = "Field (js ''Content-Disposition: form-data; name=\"a\"'') (js ''1'')"
  let ?b = "Field (js ''Content-Disposition: form-data; name'') (js ''2'')"
  have tok: "token ?B" by (simp add: wf_eval)
  have wf: "list_all (well_formed ?B) [?a, ?b]" by (simp add: wf_eval)
  have mem: "?b \<in> set [?a, ?b]" by simp
  have body: "encode ?B [?a, ?b] = js ''--XYZ'' @ CRLF
            @ js ''Content-Disposition: form-data; name=\"a\"'' @ CRLF @ CRLF @ js ''1'' @ CRLF
            @ js ''--XYZ'' @ CRLF
            @ js ''Content-Disposition: form-data; name'' @ CRLF @ CRLF @ js ''2'' @ CRLF
            @ js ''--XYZ--'' @ CRLF"
    by (simp add: body_eval js_def)
  have rb: "raw ?B ?b = \<lparr>header = js ''Content-Disposition: form-data; name'', info = [],
               part = js ''--'', fieldInfo = js ''2''\<rparr>"
    by (simp add: raw_eval js_def)
  have seg: "elem_at (split (of_char CHR '';'') (header (raw ?B ?b))) 1 = Some (js '' name'')"
    unfolding rb by (simp add: js_def elem_at_def)
  have noeq: "of_char CHR ''='' \<notin> set (js '' name'')" by (simp add: js_def)
  from malformed_header_fails [OF tok wf mem] seg noeq
  obtain e e' where e: "process (raw ?B ?b) = Inl e" "parse (encode ?B [?a, ?b]) ?B = Inl e'"
    by blast
  have pb: "process (raw ?B ?b) = Inl TypeError"
    unfolding rb by (simp add: js_eval)
  have pa: "process (raw ?B ?a) = Inr [(js ''name'', Str (js ''a'')), (js ''data'', Str (js ''1''))]"
    by (simp add: raw_eval js_def) (simp add: js_eval)
  have "parse (encode ?B [?a, ?b]) ?B = assemble (map (raw ?B) [?a, ?b])"
    using parse_encode [OF tok wf] .
  also have "\<dots> = Inl TypeError" using pa pb by simp
  finally have "parse (encode ?B [?a, ?b]) ?B = Inl TypeError" .
  with e tok wf seg noeq pb show ?thesis unfolding body by simp
qed

lemma process_file_branch_fails:
  "fieldInfo p = [] \<Longrightarrow> elem_at (split (of_char CHR '';'') (header p)) 2 = None \<Longrightarrow>
   process p = Inl TypeError"
  by (simp add: process_def obj_def)

text \<open>
  C10. A part whose third line is empty, a text field of empty value among them, goes
  through the file branch of \<^verbatim>\<open>process\<close>: \<^verbatim>\<open>obj\<close> is called on element 2 of the split header
  first, so a header with fewer than three segments gives a TypeError, and \<^verbatim>\<open>parse\<close> of a
  body containing such a part throws instead of returning a field Part with empty data;
  when \<^verbatim>\<open>process\<close> does return, the data is the Buffer of the file branch.
\<close>

theorem empty_field_line_fails:
  "(\<forall>p. fieldInfo p = [] \<longrightarrow>
        (elem_at (split (of_char CHR '';'') (header p)) 2 = None \<longrightarrow> process p = Inl TypeError)
        \<and> (\<forall>r. process p = Inr r \<longrightarrow> get_prop r (js ''data'') = Some (Buf (part p))))
   \<and> (\<forall>B sgs l1 l2 c.
         token B \<and> list_all (well_formed B) sgs \<and> Segment l1 l2 [] c \<in> set sgs
           \<and> elem_at (split (of_char CHR '';'') (toString l1)) 2 = None
         \<longrightarrow> process (raw B (Segment l1 l2 [] c)) = Inl TypeError
             \<and> (\<exists>e. parse (encode B sgs) B = Inl e))"
proof (intro conjI allI impI)
  fix p :: rawpart and r
  assume "fieldInfo p = []" and "process p = Inr r"
  then show "get_prop r (js ''data'') = Some (Buf (part p))"
    by (rule process_data_file)
next
  fix p :: rawpart
  assume "fieldInfo p = []" and "elem_at (split (of_char CHR '';'') (header p)) 2 = None"
  then show "process p = Inl TypeError"
    by (rule process_file_branch_fails)
next
  fix B sgs l1 l2 c
  assume a: "token B \<and> list_all (well_formed B) sgs \<and> Segment l1 l2 [] c \<in> set sgs
           \<and> elem_at (split (of_char CHR '';'') (toString l1)) 2 = None"
  then show p: "process (raw B (Segment l1 l2 [] c)) = Inl TypeError"
    using process_file_branch_fails [of "raw B (Segment l1 l2 [] c)"] by simp
  from a p show "\<exists>e. parse (encode B sgs) B = Inl e"
    using parse_fails [of B sgs "Segment l1 l2 [] c" TypeError] by simp
qed

text \<open>An instance: the second of two text fields has an empty value.\<close>

theorem empty_field_line_fails_witness:
  "token (js ''XYZ'')
   \<and> list_all (well_formed (js ''XYZ''))
        [Field (js ''Content-Disposition: form-data; name=\"a\"'') (js ''1''),
         Field (js ''Content-Disposition: form-data; name=\"b\"'') []]
   \<and> Field (js ''Content-Disposition: form-data; name=\"b\"'') []
       = Segment (js ''Content-Disposition: form-data; name=\"b\"'') [] [] None
   \<and> elem_at (split (of_char CHR '';'') (toString (js ''Content-Disposition: form-data; name=\"b\"''))) 2
       = None
   \<and> parse (js ''--XYZ'' @ CRLF
            @ js ''Content-Disposition: form-data; name=\"a\"'' @ CRLF @ CRLF @ js ''1'' @ CRLF
            @ js ''--XYZ'' @ CRLF
            @ js ''Content-Disposition: form-data; name=\"b\"'' @ CRLF @ CRLF @ CRLF
            @ js ''--XYZ--'' @ CRLF) (js ''XYZ'')
       = Inl TypeError"
proof -
  let ?B = "js ''XYZ''"
  let ?a = "Field (js ''Content-Disposition: form-data; name=\"a\"'') (js ''1'')"
  let ?b = "Field (js ''Content-Disposition: form-data; name=\"b\"'') []"
  let ?l1 = "js ''Content-Disposition: form-data; name=\"b\"''"
  have tok: "token ?B" by (simp add: wf_eval)
  have wf: "list_all (well_formed ?B) [?a, ?b]" by (simp add: wf_eval)
  have b: "?b = Segment ?l1 [] [] None" by (simp add: Field_def)
  have mem: "Segment ?l1 [] [] None \<in> set [?a, ?b]" by (simp add: Field_def)
  have body: "encode ?B [?a, ?b] = js ''--XYZ'' @ CRLF
            @ js ''Content-Disposition: form-data; name=\"a\"'' @ CRLF @ CRLF @ js ''1'' @ CRLF
            @ js ''--XYZ'' @ CRLF
            @ js ''Content-Disposition: form-data; name=\"b\"'' @ CRLF @ CRLF @ CRLF
            @ js ''--XYZ--'' @ CRLF"
    by (simp add: body_eval js_def)
  have seg: "elem_at (split (of_char CHR '';'') (toString ?l1)) 2 = None"
    by (simp add: toString_ascii js_def elem_at_def)
  from empty_field_line_fails tok wf mem seg
  have pb: "process (raw ?B (Segment ?l1 [] [] None)) = Inl TypeError"
    by blast
  have pa: "process (raw ?B ?a) = Inr [(js ''name'', Str (js ''a'')), (js ''data'', Str (js ''1''))]"
    by (simp add: raw_eval js_def) (simp add: js_eval)
  have "parse (encode ?B [?a, ?b]) ?B = assemble (map (raw ?B) [?a, ?b])"
    using parse_encode [OF tok wf] .
  also have "\<dots> = Inl TypeError" using pa pb b by simp
  finally have "parse (encode ?B [?a, ?b]) ?B = Inl TypeError" .
  with tok wf b seg show ?thesis unfolding body by simp
qed

lemma step_allParts:
  "step B prev s b = Inr s' \<Longrightarrow> prefix (allParts s) (allParts s')"
  by (auto simp: step_def Let_def split: if_splits sum.splits)

lemma scan_allParts:
  "scan B prev s xs = Inr s' \<Longrightarrow> prefix (allParts s) (allParts s')"
proof (induction xs arbitrary: prev s)
  case Nil
  then show ?case by simp
next
  case (Cons b xs)
  then obtain s1 where 1: "step B prev s b = Inr s1" and 2: "scan B (Some b) s1 xs = Inr s'"
    by (auto split: sum.splits)
  from step_allParts [OF 1] Cons.IH [OF 2] show ?case
    using prefix_order.trans by blast
qed

text \<open>Outside state 5 and state 0 the scanner stays there as long as no part is pushed.\<close>

lemma step_in_part:
  "step B prev s b = Inr s' \<Longrightarrow> 1 \<le> state s \<Longrightarrow> state s \<le> 4 \<Longrightarrow>
   allParts s' = allParts s \<Longrightarrow> 1 \<le> state s' \<and> state s' \<le> 4"
  by (auto simp: step_def Let_def split: if_splits sum.splits)

lemma scan_in_part:
  "scan B prev s xs = Inr s' \<Longrightarrow> 1 \<le> state s \<Longrightarrow> state s \<le> 4 \<Longrightarrow>
   allParts s' = allParts s \<Longrightarrow> 1 \<le> state s' \<and> state s' \<le> 4"
proof (induction xs arbitrary: prev s)
  case Nil
  then show ?case by simp
next
  case (Cons b xs)
  then obtain s1 where 1: "step B prev s b = Inr s1" and 2: "scan B (Some b) s1 xs = Inr s'"
    by (auto split: sum.splits)
  from step_allParts [OF 1] scan_allParts [OF 2] Cons.prems(4)
  have eq: "allParts s1 = allParts s"
    by (metis prefix_order.antisym)
  from step_in_part [OF 1 Cons.prems(2,3) eq] have "1 \<le> state s1 \<and> state s1 \<le> 4" .
  with Cons.IH [OF 2] eq Cons.prems(4) show ?case by simp
qed

lemma scan_cut:
  assumes "scan B prev s (xs @ ys) = Inr s2"
  shows "\<exists>s1. scan B prev s xs = Inr s1 \<and> prefix (allParts s) (allParts s1)
              \<and> prefix (allParts s1) (allParts s2)"
proof (cases "scan B prev s xs")
  case (Inl e)
  with assms show ?thesis by (simp add: scan_append)
next
  case (Inr s1)
  with assms have "scan B (if xs = [] then prev else Some (last xs)) s1 ys = Inr s2"
    by (simp add: scan_append)
  from scan_allParts [OF this] scan_allParts [OF Inr] Inr show ?thesis by simp
qed

text \<open>A part and the delimiter after it short of its last byte: nothing is pushed.\<close>

lemma scan_segment_open:
  assumes "token B" and "well_formed B sg" and "state s = 1" and "lastline s = []"
  shows "\<exists>s'. scan B prev s (enc_part sg @ butlast (dash_boundary B)) = Inr s'
              \<and> allParts s' = allParts s"
proof (cases sg)
  case (Segment l1 l2 l3 c)
  let ?s1 = "s\<lparr>header_v := toString l1, state := 2, lastline := []\<rparr>"
  let ?s2 = "?s1\<lparr>info_v := toString l2, state := 3, lastline := []\<rparr>"
  let ?s3 = "?s2\<lparr>fieldInfo_v := toString l3, state := 4, buffer := [], lastline := []\<rparr>"
  let ?D' = "butlast (dash_boundary B)"
  from assms(2) Segment have wf: "one_line l1" "one_line l2" "one_line l3"
    "case c of None \<Rightarrow> True | Some d \<Rightarrow> \<not> sublist (dash_boundary B) (filter (\<lambda>b. \<not> is_nl b) d)"
    by simp_all
  have sp: "strict_prefix ?D' (dash_boundary B)"
    using dash_boundary_not_Nil [of B]
    by (metis append_butlast_last_id strict_prefixI' append_Nil2)
  have 1: "scan B p s (l1 @ CRLF) = Inr ?s1" for p
    using scan_line_1 [OF wf(1) assms(3,4)] .
  have 2: "scan B p ?s1 (l2 @ CRLF) = Inr ?s2" for p
    using scan_line_2 [OF wf(2), of ?s1] by simp
  have 3: "scan B p ?s2 (l3 @ CRLF) = Inr ?s3" for p
    using scan_line_3 [OF wf(3), of ?s2] by simp
  show ?thesis
  proof (cases c)
    case None
    have 4: "scan B p ?s3 ?D' = Inr (?s3\<lparr>buffer := buffer ?s3 @ ?D', lastline := ?D'\<rparr>)" for p
      using scan_delimiter_prefix [OF assms(1) sp, of ?s3 p] by simp
    have "enc_part sg @ ?D' = (l1 @ CRLF) @ (l2 @ CRLF) @ (l3 @ CRLF) @ ?D'"
      using Segment None by simp
    then have "scan B prev s (enc_part sg @ ?D') = Inr (?s3\<lparr>buffer := buffer ?s3 @ ?D', lastline := ?D'\<rparr>)"
      using scan_then [OF 1 scan_then [OF 2 scan_then [OF 3 4]], of prev] by simp
    then show ?thesis by simp
  next
    case (Some d)
    let ?s4 = "?s3\<lparr>buffer := buffer ?s3 @ d @ CRLF, lastline := []\<rparr>"
    have 4: "scan B p ?s3 (d @ CRLF) = Inr ?s4" for p
      using scan_body_CRLF [OF assms(1), of ?s3 d p] wf(4) Some by simp
    have 5: "scan B p ?s4 ?D' = Inr (?s4\<lparr>buffer := buffer ?s4 @ ?D', lastline := ?D'\<rparr>)" for p
      using scan_delimiter_prefix [OF assms(1) sp, of ?s4 p] by simp
    have "enc_part sg @ ?D' = (l1 @ CRLF) @ (l2 @ CRLF) @ (l3 @ CRLF) @ (d @ CRLF) @ ?D'"
      using Segment Some by simp
    then have "scan B prev s (enc_part sg @ ?D') = Inr (?s4\<lparr>buffer := buffer ?s4 @ ?D', lastline := ?D'\<rparr>)"
      using scan_then [OF 1 scan_then [OF 2 scan_then [OF 3 scan_then [OF 4 5]]], of prev] by simp
    then show ?thesis by simp
  qed
qed

lemma scan_truncated_segment:
  assumes "token B" and "well_formed B sg" and "state s = 1" and "lastline s = []"
    and "strict_prefix t (enc_part sg @ dash_boundary B)"
  shows "\<exists>s'. scan B prev s t = Inr s' \<and> allParts s' = allParts s
              \<and> 1 \<le> state s' \<and> state s' \<le> 4"
proof -
  let ?full = "enc_part sg @ butlast (dash_boundary B)"
  have "enc_part sg @ dash_boundary B = ?full @ [last (dash_boundary B)]"
    using dash_boundary_not_Nil [of B] by simp
  with assms(5) have "prefix t ?full"
    by (metis prefix_snoc strict_prefix_def)
  then obtain r where r: "?full = t @ r" by (auto simp: prefix_def)
  from scan_segment_open [OF assms(1-4), of prev] obtain s4
    where s4: "scan B prev s ?full = Inr s4" "allParts s4 = allParts s" by blast
  from scan_cut [of B prev s t r s4] s4 r obtain s'
    where s': "scan B prev s t = Inr s'" "prefix (allParts s) (allParts s')"
      "prefix (allParts s') (allParts s4)" by auto
  with s4(2) have eq: "allParts s' = allParts s"
    by (metis prefix_order.antisym)
  from scan_in_part [OF s'(1) _ _ eq] assms(3) s'(1) eq show ?thesis by simp
qed

text \<open>
  C7. When the body ends inside a part, after its delimiter line and before the last byte of
  the delimiter that would end it, the scanner is in one of the states 1 to 4 at the end of
  input; nothing is thrown for the unfinished part and it is not emitted: \<^verbatim>\<open>parse\<close> returns
  exactly what it returns for the parts delimited before it.
\<close>

theorem truncated_body:
  assumes "token B" and "list_all (well_formed B) sgs" and "well_formed B sg"
    and "strict_prefix t (enc_part sg @ dash_boundary B)"
  shows "parse (encode_parts B sgs @ dash_boundary B @ CRLF @ t) B = assemble (map (raw B) sgs)
    \<and> (\<forall>rs. assemble (map (raw B) sgs) = Inr rs \<longrightarrow>
          (\<exists>s. scan B None init (encode_parts B sgs @ dash_boundary B @ CRLF @ t) = Inr s
               \<and> 1 \<le> state s \<and> state s \<le> 4 \<and> allParts s = rs))"
proof -
  let ?mid = "concat (map (\<lambda>sg. enc_part sg @ dash_boundary B @ CRLF) sgs)"
  let ?body = "encode_parts B sgs @ dash_boundary B @ CRLF @ t"
  have enc: "?body = (dash_boundary B @ CRLF) @ ?mid @ t"
    using encode_parts_shift [of B sgs t] by simp
  have first: "scan B None init ?body = scan B (Some LF) (init\<lparr>state := 1\<rparr>) (?mid @ t)"
    unfolding enc
    using scan_append_Inr [OF scan_first_delimiter [OF assms(1), of None], of "?mid @ t"]
    by (simp add: CRLF_def)
  note mid = scan_segments [OF assms(1,2), of "init\<lparr>state := 1\<rparr>" "Some LF"]
  show ?thesis
  proof (cases "assemble (map (raw B) sgs)")
    case (Inl e)
    with mid have "scan B (Some LF) (init\<lparr>state := 1\<rparr>) ?mid = Inl e"
      by (simp add: init_def)
    then have "scan B (Some LF) (init\<lparr>state := 1\<rparr>) (?mid @ t) = Inl e"
      by (simp only: scan_append sum.case)
    with Inl first show ?thesis by (simp add: parse_def)
  next
    case (Inr rs)
    with mid obtain s' where s': "scan B (Some LF) (init\<lparr>state := 1\<rparr>) ?mid = Inr s'"
      "state s' = 1" "lastline s' = []" "allParts s' = rs"
      by (auto simp: init_def)
    have rest: "scan B (Some LF) (init\<lparr>state := 1\<rparr>) (?mid @ t)
                  = scan B (if ?mid = [] then Some LF else Some (last ?mid)) s' t"
      using s'(1) by (simp only: scan_append sum.case)
    from scan_truncated_segment [OF assms(1,3) s'(2,3) assms(4),
        of "if ?mid = [] then Some LF else Some (last ?mid)"]
    obtain s'' where "scan B (if ?mid = [] then Some LF else Some (last ?mid)) s' t = Inr s''"
      "allParts s'' = allParts s'" "1 \<le> state s''" "state s'' \<le> 4" by blast
    with Inr first rest s'(4) show ?thesis by (simp add: parse_def)
  qed
qed

text \<open>
  An instance: a complete text field, then a file cut after the first three bytes of its
  payload.
\<close>

theorem truncated_body_witness:
  "token (js ''XYZ'')
   \<and> list_all (well_formed (js ''XYZ'')) [Field (js ''Content-Disposition: form-data; name=\"a\"'') (js ''1'')]
   \<and> well_formed (js ''XYZ'')
        (File (js ''Content-Disposition: form-data; name=\"f\"; filename=\"a.txt\"'')
              (js ''Content-Type: text/plain'') (js ''hello''))
   \<and> strict_prefix
        (js ''Content-Disposition: form-data; name=\"f\"; filename=\"a.txt\"'' @ CRLF
         @ js ''Content-Type: text/plain'' @ CRLF @ CRLF @ js ''hel'')
        (enc_part (File (js ''Content-Disposition: form-data; name=\"f\"; filename=\"a.txt\"'')
                        (js ''Content-Type: text/plain'') (js ''hello''))
         @ dash_boundary (js ''XYZ''))
   \<and> parse (js ''--XYZ'' @ CRLF
            @ js ''Content-Disposition: form-data; name=\"a\"'' @ CRLF @ CRLF @ js ''1'' @ CRLF
            @ js ''--XYZ'' @ CRLF
            @ js ''Content-Disposition: form-data; name=\"f\"; filename=\"a.txt\"'' @ CRLF
            @ js ''Content-Type: text/plain'' @ CRLF @ CRLF @ js ''hel'') (js ''XYZ'')
       = Inr [[(js ''name'', Str (js ''a'')), (js ''data'', Str (js ''1''))]]"
proof -
  let ?B = "js ''XYZ''"
  let ?a = "Field (js ''Content-Disposition: form-data; name=\"a\"'') (js ''1'')"
  let ?f = "File (js ''Content-Disposition: form-data; name=\"f\"; filename=\"a.txt\"'')
              (js ''Content-Type: text/plain'') (js ''hello'')"
  let ?t = "js ''Content-Disposition: form-data; name=\"f\"; filename=\"a.txt\"'' @ CRLF
         @ js ''Content-Type: text/plain'' @ CRLF @ CRLF @ js ''hel''"
  have tok: "token ?B" by (simp add: wf_eval)
  have wf: "list_all (well_formed ?B) [?a]" by (simp add: wf_eval)
  have wff: "well_formed ?B ?f" by (simp add: wf_eval)
  have sp: "strict_prefix ?t (enc_part ?f @ dash_boundary ?B)"
    by (simp add: strict_prefix_def File_def dash_boundary_def js_def CRLF_def)
  have body: "encode_parts ?B [?a] @ dash_boundary ?B @ CRLF @ ?t = js ''--XYZ'' @ CRLF
            @ js ''Content-Disposition: form-data; name=\"a\"'' @ CRLF @ CRLF @ js ''1'' @ CRLF
            @ js ''--XYZ'' @ CRLF
            @ js ''Content-Disposition: form-data; name=\"f\"; filename=\"a.txt\"'' @ CRLF
            @ js ''Content-Type: text/plain'' @ CRLF @ CRLF @ js ''hel''"
    by (simp add: body_eval js_def)
  have pa: "process (raw ?B ?a) = Inr [(js ''name'', Str (js ''a'')), (js ''data'', Str (js ''1''))]"
    by (simp add: raw_eval js_def) (simp add: js_eval)
  from truncated_body [OF tok wf wff sp]
  have "parse (encode_parts ?B [?a] @ dash_boundary ?B @ CRLF @ ?t) ?B = assemble (map (raw ?B) [?a])"
    by (rule conjunct1)
  also have "\<dots> = Inr [[(js ''name'', Str (js ''a'')), (js ''data'', Str (js ''1''))]]"
    using pa by simp
  finally show ?thesis using tok wf wff sp unfolding body by simp
qed

lemma step_state0:
  assumes "state s = 0"
  shows "step B prev s b =
           Inr (if b = 0x0a \<and> prev = Some 0x0d
                then s\<lparr>state := (if js ''--'' @ B = toString (lastline s) then 1 else 0), lastline := []\<rparr>
                else if is_nl b then s else s\<lparr>lastline := lastline s @ [b]\<rparr>)"
  using assms by (simp add: step_def Let_def is_nl_def)

text \<open>As long as no complete line reads as the delimiter, the scanner stays in state 0.\<close>

lemma scan_state0:
  "state s = 0 \<Longrightarrow> lastline s = filter (\<lambda>b. \<not> is_nl b) cur \<Longrightarrow>
   (prev = Some 0x0d \<longrightarrow> bs = [] \<or> hd bs \<noteq> 0x0a) \<Longrightarrow>
   list_all (\<lambda>l. line_text l \<noteq> js ''--'' @ B) (crlf_lines_from cur bs) \<Longrightarrow>
   \<exists>s'. scan B prev s bs = Inr s' \<and> state s' = 0 \<and> allParts s' = allParts s"
proof (induction cur bs arbitrary: s prev rule: crlf_lines_from.induct)
  case (1 cur)
  then show ?case by simp
next
  case (2 cur b)
  then show ?case by (auto simp: step_state0)
next
  case (3 cur b c bs)
  show ?case
  proof (cases "b = 0x0d \<and> c = 0x0a")
    case True
    with "3.prems"(4) have ne: "line_text cur \<noteq> js ''--'' @ B"
      and rest: "list_all (\<lambda>l. line_text l \<noteq> js ''--'' @ B) (crlf_lines_from [] bs)"
      by simp_all
    let ?s' = "s\<lparr>state := 0, lastline := []\<rparr>"
    have "scan B prev s (b # c # bs) = scan B (Some 0x0a) ?s' bs"
      using True "3.prems"(1,2) ne by (simp add: step_state0 is_nl_def line_text_def)
    moreover have "\<exists>s''. scan B (Some 0x0a) ?s' bs = Inr s'' \<and> state s'' = 0 \<and> allParts s'' = allParts ?s'"
      using "3.IH"(1) [OF True, of ?s' "Some 0x0a"] "3.prems"(1) rest by simp
    ultimately show ?thesis by simp
  next
    case False
    with "3.prems"(4) have rest: "list_all (\<lambda>l. line_text l \<noteq> js ''--'' @ B) (crlf_lines_from (cur @ [b]) (c # bs))"
      by simp
    let ?s' = "if is_nl b then s else s\<lparr>lastline := lastline s @ [b]\<rparr>"
    have nl: "\<not> (b = 0x0a \<and> prev = Some 0x0d)"
      using "3.prems"(3) by auto
    have "step B prev s b = Inr ?s'"
      using nl "3.prems"(1) by (auto simp: step_state0)
    then have "scan B prev s (b # c # bs) = scan B (Some b) ?s' (c # bs)"
      by (simp only: scan.simps sum.case)
    moreover have "\<exists>s''. scan B (Some b) ?s' (c # bs) = Inr s'' \<and> state s'' = 0 \<and> allParts s'' = allParts ?s'"
      using "3.IH"(2) [OF False, of ?s' "Some b"] "3.prems"(1,2) rest False by simp
    ultimately show ?thesis by auto
  qed
qed

text \<open>
  C6, amended. For every body in which no complete line (ended by a CR directly followed by
  LF), read without its CR and LF bytes and decoded, equals the two dashes and the boundary,
  \<^verbatim>\<open>parse\<close> returns the empty sequence, whatever the boundary.
\<close>

theorem no_delimiter_line:
  assumes "list_all (\<lambda>l. line_text l \<noteq> js ''--'' @ B) (crlf_lines body)"
  shows "parse body B = Inr []"
proof -
  from scan_state0 [of init "[]" None body B] assms
  obtain s' where "scan B None init body = Inr s'" "allParts s' = allParts init"
    by (auto simp: init_def crlf_lines_def)
  then show ?thesis by (simp add: parse_def init_def)
qed

lemmas scan_eval = parse_def init_def step_def Let_def toString_ascii slice0_def CRLF_def CR_def LF_def

text \<open>
  An instance: the delimiter occurs inside a line, with two more dashes after it, and
  without CRLF at the end of the body.
\<close>

theorem no_delimiter_line_witness:
  "crlf_lines (js ''preamble'' @ CRLF @ js ''x--XYZ'' @ CRLF @ js ''--XYZ--'' @ CRLF @ js ''--XYZ'')
     = [js ''preamble'', js ''x--XYZ'', js ''--XYZ--'']
   \<and> list_all (\<lambda>l. line_text l \<noteq> js ''--'' @ js ''XYZ'')
        (crlf_lines (js ''preamble'' @ CRLF @ js ''x--XYZ'' @ CRLF @ js ''--XYZ--'' @ CRLF @ js ''--XYZ''))
   \<and> parse (js ''preamble'' @ CRLF @ js ''x--XYZ'' @ CRLF @ js ''--XYZ--'' @ CRLF @ js ''--XYZ'')
        (js ''XYZ'') = Inr []"
proof -
  let ?body = "js ''preamble'' @ CRLF @ js ''x--XYZ'' @ CRLF @ js ''--XYZ--'' @ CRLF @ js ''--XYZ''"
  have l: "crlf_lines ?body = [js ''preamble'', js ''x--XYZ'', js ''--XYZ--'']"
    by (simp add: crlf_lines_def js_def CRLF_def CR_def LF_def)
  have h: "list_all (\<lambda>l. line_text l \<noteq> js ''--'' @ js ''XYZ'') (crlf_lines ?body)"
    unfolding l by (simp add: line_text_def is_nl_def js_def toString_ascii)
  from no_delimiter_line [OF h] l h show ?thesis by simp
qed

text \<open>
  C6, as stated, fails: CR and LF bytes are never added to the line that the scanner
  compares, so a lone CR or LF inside a delimiter line goes unseen. In this body no line is
  the two dashes and the boundary \<open>AB\<close>, the boundary occurs nowhere, and a Part is returned.
\<close>

theorem no_delimiter_line_counterexample:
  "js ''--AB'' \<notin> set (crlf_lines
       (js ''--A'' @ [CR] @ js ''B'' @ CRLF
        @ js ''Content-Disposition: form-data; name=\"foo\"'' @ CRLF @ CRLF @ js ''v'' @ CRLF
        @ js ''--A'' @ [LF] @ js ''B--'' @ CRLF))
   \<and> \<not> sublist (js ''AB'')
       (js ''--A'' @ [CR] @ js ''B'' @ CRLF
        @ js ''Content-Disposition: form-data; name=\"foo\"'' @ CRLF @ CRLF @ js ''v'' @ CRLF
        @ js ''--A'' @ [LF] @ js ''B--'' @ CRLF)
   \<and> parse (js ''--A'' @ [CR] @ js ''B'' @ CRLF
        @ js ''Content-Disposition: form-data; name=\"foo\"'' @ CRLF @ CRLF @ js ''v'' @ CRLF
        @ js ''--A'' @ [LF] @ js ''B--'' @ CRLF) (js ''AB'')
       = Inr [[(js ''name'', Str (js ''foo'')), (js ''data'', Str (js ''v''))]]"
proof -
  let ?body = "js ''--A'' @ [CR] @ js ''B'' @ CRLF
        @ js ''Content-Disposition: form-data; name=\"foo\"'' @ CRLF @ CRLF @ js ''v'' @ CRLF
        @ js ''--A'' @ [LF] @ js ''B--'' @ CRLF"
  have 1: "js ''--AB'' \<notin> set (crlf_lines ?body)"
    by (simp add: crlf_lines_def js_def CRLF_def CR_def LF_def)
  have 2: "\<not> sublist (js ''AB'') ?body"
    by (simp add: js_def CRLF_def CR_def LF_def sublist_evals)
  have 3: "process \<lparr>header = js ''Content-Disposition: form-data; name=\"foo\"'', info = [],
               part = x, fieldInfo = js ''v''\<rparr>
             = Inr [(js ''name'', Str (js ''foo'')), (js ''data'', Str (js ''v''))]" for x
    by (simp add: js_eval)
  have 4: "parse ?body (js ''AB'') = Inr [[(js ''name'', Str (js ''foo'')), (js ''data'', Str (js ''v''))]]"
    using 3 by (simp add: scan_eval js_def)
  from 1 2 4 show ?thesis by simp
qed

lemmas utf8_eval = toString_def utf8_decode.simps utf8_seq_def utf8_2_def utf8_3_def utf8_4_def utf8_cont_def

text \<open>
  The memory-saving test clears the candidate line in the middle of a line of the payload,
  and the bytes after that point are compared as if they began a line: eight bytes, the two
  dashes and the boundary inside one line of a payload end the part there, and the data of
  the Part is the first six bytes.
\<close>

lemma mem_save_cuts_payload:
  "parse (js ''--XYZ'' @ CRLF
          @ js ''Content-Disposition: form-data; name=\"f\"; filename=\"a.png\"'' @ CRLF
          @ js ''Content-Type: image/png'' @ CRLF @ CRLF
          @ [0x89, 0x50, 0x4e, 0x47, 0x00, 0xff, 0x01, 0x02] @ js ''--XYZ'' @ [0x03] @ CRLF
          @ js ''--XYZ--'' @ CRLF) (js ''XYZ'')
     = Inr [[(js ''filename'', Str (js ''a.png'')), (js ''name'', Str (js ''f'')),
             (js ''type'', Str (js ''image/png'')),
             (js ''data'', Buf [0x89, 0x50, 0x4e, 0x47, 0x00, 0xff])]]
   \<and> encode (js ''XYZ'')
         [File (js ''Content-Disposition: form-data; name=\"f\"; filename=\"a.png\"'')
               (js ''Content-Type: image/png'')
               ([0x89, 0x50, 0x4e, 0x47, 0x00, 0xff, 0x01, 0x02] @ js ''--XYZ'' @ [0x03])]
       = js ''--XYZ'' @ CRLF
          @ js ''Content-Disposition: form-data; name=\"f\"; filename=\"a.png\"'' @ CRLF
          @ js ''Content-Type: image/png'' @ CRLF @ CRLF
          @ [0x89, 0x50, 0x4e, 0x47, 0x00, 0xff, 0x01, 0x02] @ js ''--XYZ'' @ [0x03] @ CRLF
          @ js ''--XYZ--'' @ CRLF"
proof -
  have 1: "process \<lparr>header = js ''Content-Disposition: form-data; name=\"f\"; filename=\"a.png\"'',
               info = js ''Content-Type: image/png'', part = x, fieldInfo = []\<rparr>
             = Inr [(js ''filename'', Str (js ''a.png'')), (js ''name'', Str (js ''f'')),
                    (js ''type'', Str (js ''image/png'')), (js ''data'', Buf x)]" for x
    by (simp add: js_eval)
  have 2: "parse (js ''--XYZ'' @ CRLF
          @ js ''Content-Disposition: form-data; name=\"f\"; filename=\"a.png\"'' @ CRLF
          @ js ''Content-Type: image/png'' @ CRLF @ CRLF
          @ [0x89, 0x50, 0x4e, 0x47, 0x00, 0xff, 0x01, 0x02] @ js ''--XYZ'' @ [0x03] @ CRLF
          @ js ''--XYZ--'' @ CRLF) (js ''XYZ'')
     = Inr [[(js ''filename'', Str (js ''a.png'')), (js ''name'', Str (js ''f'')),
             (js ''type'', Str (js ''image/png'')),
             (js ''data'', Buf [0x89, 0x50, 0x4e, 0x47, 0x00, 0xff])]]"
    using 1 by (simp add: parse_def init_def step_def Let_def slice0_def CRLF_def CR_def LF_def js_def utf8_eval)
  have 3: "encode (js ''XYZ'')
         [File (js ''Content-Disposition: form-data; name=\"f\"; filename=\"a.png\"'')
               (js ''Content-Type: image/png'')
               ([0x89, 0x50, 0x4e, 0x47, 0x00, 0xff, 0x01, 0x02] @ js ''--XYZ'' @ [0x03])]
       = js ''--XYZ'' @ CRLF
          @ js ''Content-Disposition: form-data; name=\"f\"; filename=\"a.png\"'' @ CRLF
          @ js ''Content-Type: image/png'' @ CRLF @ CRLF
          @ [0x89, 0x50, 0x4e, 0x47, 0x00, 0xff, 0x01, 0x02] @ js ''--XYZ'' @ [0x03] @ CRLF
          @ js ''--XYZ--'' @ CRLF"
    by (simp add: body_eval js_def)
  from 2 3 show ?thesis by simp
qed

text \<open>
  What does hold of the candidate line in state 4: after every step it is no longer than the
  boundary and four bytes, and a step that stays in state 4 appends its byte to the buffer.
\<close>

lemma step4_window_bounded:
  "state s = 4 \<Longrightarrow> step B prev s b = Inr s' \<Longrightarrow> length (lastline s') \<le> length B + 4"
  by (auto simp: step_def Let_def split: if_splits sum.splits)

lemma step4_appends:
  "state s = 4 \<Longrightarrow> step B prev s b = Inr s' \<Longrightarrow> state s' = 4 \<Longrightarrow> buffer s' = buffer s @ [b]"
  by (auto simp: step_def Let_def split: if_splits sum.splits)

text \<open>Both scanners take the same step wherever the test does not clear the candidate line.\<close>

lemma step_unbounded_eq:
  assumes "state s \<noteq> 4 \<or> \<not> length (if is_nl b then lastline s else lastline s @ [b]) > length B + 4"
  shows "step B prev s b = step_unbounded B prev s b"
proof (cases "state s = 4")
  case False
  then show ?thesis
    unfolding step_def step_unbounded_def by (simp add: Let_def)
next
  case s4: True
  show ?thesis
  proof (cases "is_nl b")
    case True
    with assms s4 show ?thesis
      unfolding step_def step_unbounded_def by (simp add: is_nl_def Let_def)
  next
    case False
    with assms s4 show ?thesis
      unfolding step_def step_unbounded_def by (simp add: is_nl_def Let_def)
  qed
qed

text \<open>
  C8 fails on the code. The candidate line is cleared when it is longer than the boundary
  and four bytes, and every byte read in state 4 short of a match is appended to the
  buffer; but the clearing decides where a part ends. With the boundary \<open>B\<close> the candidate
  line is cleared at the sixth \<open>x\<close> of the line \<open>xxxxxx--B\<close>, the rest of the line reads as a
  delimiter, and the body emitted is \<open>xxxx\<close>; without the clearing it is the whole line.
\<close>

theorem clearing_changes_body:
  "parse (js ''--B'' @ CRLF
          @ js ''Content-Disposition: form-data; name=\"f\"; filename=\"a.txt\"'' @ CRLF
          @ js ''Content-Type: text/plain'' @ CRLF @ CRLF
          @ js ''xxxxxx--B'' @ CRLF
          @ js ''--B--'' @ CRLF) (js ''B'')
     = Inr [[(js ''filename'', Str (js ''a.txt'')), (js ''name'', Str (js ''f'')),
             (js ''type'', Str (js ''text/plain'')), (js ''data'', Buf (js ''xxxx''))]]
   \<and> parse_unbounded (js ''--B'' @ CRLF
          @ js ''Content-Disposition: form-data; name=\"f\"; filename=\"a.txt\"'' @ CRLF
          @ js ''Content-Type: text/plain'' @ CRLF @ CRLF
          @ js ''xxxxxx--B'' @ CRLF
          @ js ''--B--'' @ CRLF) (js ''B'')
     = Inr [[(js ''filename'', Str (js ''a.txt'')), (js ''name'', Str (js ''f'')),
             (js ''type'', Str (js ''text/plain'')), (js ''data'', Buf (js ''xxxxxx--B''))]]"
proof -
  have 1: "process \<lparr>header = js ''Content-Disposition: form-data; name=\"f\"; filename=\"a.txt\"'',
               info = js ''Content-Type: text/plain'', part = x, fieldInfo = []\<rparr>
             = Inr [(js ''filename'', Str (js ''a.txt'')), (js ''name'', Str (js ''f'')),
                    (js ''type'', Str (js ''text/plain'')), (js ''data'', Buf x)]" for x
    by (simp add: js_eval)
  have 2: "parse (js ''--B'' @ CRLF
          @ js ''Content-Disposition: form-data; name=\"f\"; filename=\"a.txt\"'' @ CRLF
          @ js ''Content-Type: text/plain'' @ CRLF @ CRLF
          @ js ''xxxxxx--B'' @ CRLF
          @ js ''--B--'' @ CRLF) (js ''B'')
     = Inr [[(js ''filename'', Str (js ''a.txt'')), (js ''name'', Str (js ''f'')),
             (js ''type'', Str (js ''text/plain'')), (js ''data'', Buf (js ''xxxx''))]]"
    using 1 by (simp add: scan_eval js_def)
  have 3: "parse_unbounded (js ''--B'' @ CRLF
          @ js ''Content-Disposition: form-data; name=\"f\"; filename=\"a.txt\"'' @ CRLF
          @ js ''Content-Type: text/plain'' @ CRLF @ CRLF
          @ js ''xxxxxx--B'' @ CRLF
          @ js ''--B--'' @ CRLF) (js ''B'')
     = Inr [[(js ''filename'', Str (js ''a.txt'')), (js ''name'', Str (js ''f'')),
             (js ''type'', Str (js ''text/plain'')), (js ''data'', Buf (js ''xxxxxx--B''))]]"
    using 1 by (simp add: parse_unbounded_def step_unbounded_def init_def Let_def toString_ascii
        slice0_def CRLF_def CR_def LF_def js_def)
  from 2 3 show ?thesis by simp
qed

lemma split_sep: "c \<notin> set xs \<Longrightarrow> split c (xs @ c # ys) = xs # split c ys"
  by (induction xs) auto

lemma trim_id: "s \<noteq> [] \<Longrightarrow> \<not> is_ws (hd s) \<Longrightarrow> \<not> is_ws (last s) \<Longrightarrow> trim s = s"
proof -
  assume s: "s \<noteq> []" and h: "\<not> is_ws (hd s)" and l: "\<not> is_ws (last s)"
  from s h have 1: "dropWhile is_ws s = s" by (cases s) simp_all
  from s l have 2: "dropWhile is_ws (rev s) = rev s"
    by (cases "rev s") (simp_all add: last_rev [symmetric] del: last_rev)
  show ?thesis by (simp add: trim_def 1 2)
qed

lemma json_chars_plain:
  "list_all (\<lambda>c. 0x20 \<le> c \<and> c \<noteq> 0x22 \<and> c \<noteq> 0x5c) s \<Longrightarrow> json_chars (s @ 0x22 # r) = Some (s, r)"
  by (induction s) auto

lemma JSON_parse_quoted:
  assumes "list_all (\<lambda>c. 0x20 \<le> c \<and> c \<noteq> 0x22 \<and> c \<noteq> 0x5c) s"
  shows "JSON_parse (0x22 # s @ [0x22]) = Some (Str s)"
proof -
  have "json_value (Suc (2 * length (0x22 # s @ [0x22]))) (0x22 # s @ [0x22]) = Ok (Str s) []"
    using json_chars_plain [OF assms, of "[]"] by (simp add: skip_ws_def json_ws_def)
  then show ?thesis by (simp add: JSON_parse_def skip_ws_def)
qed

lemma obj_quoted:
  assumes "plain s" and "of_char CHR ''='' \<notin> set key" and "trim key = k"
  shows "obj (Some (key @ of_char CHR ''='' # 0x22 # s @ [0x22])) = Inr [(k, Str s)]"
proof -
  from assms(1) have q: "list_all (\<lambda>c. 0x20 \<le> c \<and> c \<noteq> 0x22 \<and> c \<noteq> 0x5c) s"
    and e: "of_char CHR ''='' \<notin> set s"
    by (auto simp: plain_def list_all_iff)
  from e have "of_char CHR ''='' \<notin> set (0x22 # s @ [0x22])" by simp
  then have sp: "split (of_char CHR ''='') (key @ of_char CHR ''='' # 0x22 # s @ [0x22]) = [key, 0x22 # s @ [0x22]]"
    using split_sep [OF assms(2), of "0x22 # s @ [0x22]"] split_no_sep by simp
  have tr: "trim (0x22 # s @ [0x22]) = 0x22 # s @ [0x22]"
    by (rule trim_id) (simp_all add: is_ws_def)
  show ?thesis
    using sp by (simp add: obj_def Let_def elem_at_def tr JSON_parse_quoted [OF q] assms(3))
qed

lemma split_file_disposition:
  assumes "plain n" and "plain f"
  shows "split (of_char CHR '';'') (file_disposition n f) =
           [js ''Content-Disposition: form-data'',
            js '' name'' @ of_char CHR ''='' # 0x22 # n @ [0x22],
            js '' filename'' @ of_char CHR ''='' # 0x22 # f @ [0x22]]"
proof -
  let ?c = "of_char CHR '';'' :: nat"
  let ?a = "js ''Content-Disposition: form-data''"
  let ?b = "js '' name'' @ of_char CHR ''='' # 0x22 # n @ [0x22]"
  let ?d = "js '' filename'' @ of_char CHR ''='' # 0x22 # f @ [0x22]"
  from assms have n: "?c \<notin> set n" and f: "?c \<notin> set f"
    by (auto simp: plain_def list_all_iff)
  have fd: "file_disposition n f = ?a @ ?c # ?b @ ?c # ?d"
    by (simp add: file_disposition_def js_def)
  have a: "?c \<notin> set ?a" by (simp add: js_def)
  have b: "?c \<notin> set ?b" using n by (simp add: js_def)
  have d: "?c \<notin> set ?d" using f by (simp add: js_def)
  have "split ?c (?a @ ?c # ?b @ ?c # ?d) = ?a # split ?c (?b @ ?c # ?d)"
    by (rule split_sep [OF a])
  also have "split ?c (?b @ ?c # ?d) = ?b # split ?c ?d"
    by (rule split_sep [OF b])
  also have "split ?c ?d = [?d]"
    by (rule split_no_sep [OF d])
  finally show ?thesis unfolding fd .
qed

lemma plain_one_line: "plain s \<Longrightarrow> list_all (\<lambda>b. \<not> is_nl b) s"
  by (induction s) (simp_all add: plain_def is_nl_def)

lemma plain_ascii: "plain s \<Longrightarrow> list_all (\<lambda>c. c < 0x80) s"
  by (induction s) (simp_all add: plain_def)

lemma process_file:
  assumes "plain n" and "plain f" and "media_type ty"
  shows "process \<lparr>header = file_disposition n f, info = content_type ty, part = d, fieldInfo = []\<rparr>
           = Inr ((js ''filename'', Str f)
                  # (if n = [] then [] else [(js ''name'', Str n)])
                  @ [(js ''type'', Str ty), (js ''data'', Buf d)])"
proof -
  have o2: "obj (Some (js '' filename'' @ of_char CHR ''='' # 0x22 # f @ [0x22])) = Inr [(js ''filename'', Str f)]"
    by (rule obj_quoted [OF assms(2)]) (simp_all add: js_def trim_def is_ws_def)
  have o1: "obj (Some (js '' name'' @ of_char CHR ''='' # 0x22 # n @ [0x22])) = Inr [(js ''name'', Str n)]"
    by (rule obj_quoted [OF assms(1)]) (simp_all add: js_def trim_def is_ws_def)
  from assms(3) have c: "of_char CHR '':'' \<notin> set ty" and t: "trim ty = ty"
    by (auto simp: media_type_def list_all_iff)
  have "content_type ty = js ''Content-Type'' @ of_char CHR '':'' # (0x20 # ty)"
    by (simp add: content_type_def js_def)
  moreover have "of_char CHR '':'' \<notin> set (js ''Content-Type'')" by (simp add: js_def)
  moreover have "of_char CHR '':'' \<notin> set (0x20 # ty)" using c by simp
  ultimately have sp: "split (of_char CHR '':'') (content_type ty) = [js ''Content-Type'', 0x20 # ty]"
    using split_sep [of "of_char CHR '':''" "js ''Content-Type''" "0x20 # ty"] split_no_sep
    by simp
  have tr: "trim (0x20 # ty) = ty"
    using t by (simp add: trim_def is_ws_def)
  show ?thesis
    using split_file_disposition [OF assms(1,2)] o1 o2 sp
    by (simp add: process_def Let_def elem_at_def tr) (simp add: js_def)
qed

text \<open>
  C3, as stated, fails: the candidate line leaves out every CR and LF byte, so a lone CR
  inside a payload line is not seen there. The payload \<open>-- CR XYZ\<close> does not contain the
  delimiter \<open>CRLF --XYZ\<close>, and it comes back as the four bytes \<open>-- CR X\<close>.
\<close>

theorem file_round_trip_counterexample:
  "parse (js ''--XYZ'' @ CRLF
          @ js ''Content-Disposition: form-data; name=\"f\"; filename=\"a.bin\"'' @ CRLF
          @ js ''Content-Type: application/octet-stream'' @ CRLF @ CRLF
          @ (js ''--'' @ [CR] @ js ''XYZ'') @ CRLF
          @ js ''--XYZ--'' @ CRLF) (js ''XYZ'')
     = Inr [[(js ''filename'', Str (js ''a.bin'')), (js ''name'', Str (js ''f'')),
             (js ''type'', Str (js ''application/octet-stream'')),
             (js ''data'', Buf (js ''--'' @ [CR] @ js ''X''))]]
   \<and> js ''--'' @ [CR] @ js ''X'' \<noteq> js ''--'' @ [CR] @ js ''XYZ''
   \<and> \<not> sublist (CRLF @ js ''--XYZ'') (CRLF @ js ''--'' @ [CR] @ js ''XYZ'' @ CRLF)
   \<and> encode (js ''XYZ'')
         [File (file_disposition (js ''f'') (js ''a.bin'')) (content_type (js ''application/octet-stream''))
               (js ''--'' @ [CR] @ js ''XYZ'')]
       = js ''--XYZ'' @ CRLF
          @ js ''Content-Disposition: form-data; name=\"f\"; filename=\"a.bin\"'' @ CRLF
          @ js ''Content-Type: application/octet-stream'' @ CRLF @ CRLF
          @ (js ''--'' @ [CR] @ js ''XYZ'') @ CRLF
          @ js ''--XYZ--'' @ CRLF"
proof -
  have 1: "process \<lparr>header = js ''Content-Disposition: form-data; name=\"f\"; filename=\"a.bin\"'',
               info = js ''Content-Type: application/octet-stream'', part = x, fieldInfo = []\<rparr>
             = Inr [(js ''filename'', Str (js ''a.bin'')), (js ''name'', Str (js ''f'')),
                    (js ''type'', Str (js ''application/octet-stream'')), (js ''data'', Buf x)]" for x
    by (simp add: js_eval)
  have 2: "parse (js ''--XYZ'' @ CRLF
          @ js ''Content-Disposition: form-data; name=\"f\"; filename=\"a.bin\"'' @ CRLF
          @ js ''Content-Type: application/octet-stream'' @ CRLF @ CRLF
          @ (js ''--'' @ [CR] @ js ''XYZ'') @ CRLF
          @ js ''--XYZ--'' @ CRLF) (js ''XYZ'')
     = Inr [[(js ''filename'', Str (js ''a.bin'')), (js ''name'', Str (js ''f'')),
             (js ''type'', Str (js ''application/octet-stream'')),
             (js ''data'', Buf (js ''--'' @ [CR] @ js ''X''))]]"
    using 1 by (simp add: scan_eval js_def)
  have 3: "js ''--'' @ [CR] @ js ''X'' \<noteq> js ''--'' @ [CR] @ js ''XYZ''"
    by (simp add: js_def)
  have 4: "\<not> sublist (CRLF @ js ''--XYZ'') (CRLF @ js ''--'' @ [CR] @ js ''XYZ'' @ CRLF)"
    by (simp add: js_def CRLF_def CR_def LF_def sublist_evals)
  have 5: "encode (js ''XYZ'')
         [File (file_disposition (js ''f'') (js ''a.bin'')) (content_type (js ''application/octet-stream''))
               (js ''--'' @ [CR] @ js ''XYZ'')]
       = js ''--XYZ'' @ CRLF
          @ js ''Content-Disposition: form-data; name=\"f\"; filename=\"a.bin\"'' @ CRLF
          @ js ''Content-Type: application/octet-stream'' @ CRLF @ CRLF
          @ (js ''--'' @ [CR] @ js ''XYZ'') @ CRLF
          @ js ''--XYZ--'' @ CRLF"
    by (simp add: body_eval file_disposition_def content_type_def js_def)
  from 2 3 4 5 show ?thesis by blast
qed

text \<open>
  What \<^verbatim>\<open>parse\<close> returns for the body that encodes one file of name \<open>n\<close>, file name \<open>f\<close>, media
  type \<open>ty\<close> and data \<open>d\<close>: one Part, where \<^verbatim>\<open>if (fileField.name)\<close> leaves out an empty name.
\<close>

lemma parse_file_part:
  assumes "token B" and "plain n" and "plain f" and "media_type ty"
    and "\<not> sublist (dash_boundary B) (filter (\<lambda>b. \<not> is_nl b) d)"
  shows "parse (encode B [File (file_disposition n f) (content_type ty) d]) B
           = Inr [(js ''filename'', Str f)
                  # (if n = [] then [] else [(js ''name'', Str n)])
                  @ [(js ''type'', Str ty), (js ''data'', Buf d)]]"
proof -
  let ?sg = "File (file_disposition n f) (content_type ty) d"
  have 1: "one_line (file_disposition n f)"
    using plain_one_line [OF assms(2)] plain_one_line [OF assms(3)]
    by (simp add: one_line_def file_disposition_def js_def is_nl_def)
  have 2: "one_line (content_type ty)"
    using assms(4) by (simp add: media_type_def one_line_def content_type_def js_def is_nl_def list_all_iff)
  have 3: "list_all (\<lambda>c. c < 0x80) (file_disposition n f)"
    using plain_ascii [OF assms(2)] plain_ascii [OF assms(3)]
    by (simp add: file_disposition_def js_def)
  have 4: "list_all (\<lambda>c. c < 0x80) (content_type ty)"
    using assms(4) by (simp add: media_type_def content_type_def js_def list_all_iff)
  have wf: "list_all (well_formed B) [?sg]"
    using 1 2 assms(5) by (simp add: File_def one_line_def)
  have r: "raw B ?sg = \<lparr>header = file_disposition n f, info = content_type ty, part = d, fieldInfo = []\<rparr>"
    by (simp add: File_def toString_ascii [OF 3] toString_ascii [OF 4])
  have "parse (encode B [?sg]) B = assemble (map (raw B) [?sg])"
    using parse_encode [OF assms(1) wf] .
  also have "\<dots> = Inr [(js ''filename'', Str f)
                  # (if n = [] then [] else [(js ''name'', Str n)])
                  @ [(js ''type'', Str ty), (js ''data'', Buf d)]]"
    using process_file [OF assms(2,3,4), of d] r by simp
  finally show ?thesis .
qed

text \<open>
  C3, amended. For every file Part whose data bytes \<open>d\<close>, read without their CR and LF bytes,
  nowhere show the two dashes and the boundary: encoding the bytes into a well-formed
  multipart body (one part, with a name and a file name between double quotes and a media
  type, and a boundary of ASCII characters other than CR and LF) and parsing that body
  again with the same boundary returns one Part whose data is the original bytes exactly,
  including CR and LF bytes that do not form a CRLF pair.
\<close>

theorem file_round_trip:
  assumes "token B" and "plain n" and "plain f" and "media_type ty"
    and "\<not> sublist (dash_boundary B) (filter (\<lambda>b. \<not> is_nl b) d)"
  shows "\<exists>p. parse (encode B [File (file_disposition n f) (content_type ty) d]) B = Inr [p]
           \<and> get_prop p (js ''data'') = Some (Buf d)"
proof -
  let ?p = "(js ''filename'', Str f)
              # (if n = [] then [] else [(js ''name'', Str n)])
              @ [(js ''type'', Str ty), (js ''data'', Buf d)]"
  have "parse (encode B [File (file_disposition n f) (content_type ty) d]) B = Inr [?p]"
    using parse_file_part [OF assms] .
  moreover have "get_prop ?p (js ''data'') = Some (Buf d)"
    by (simp add: js_def)
  ultimately show ?thesis by blast
qed

text \<open>
  An instance: data with a NUL byte, a lone CR, a byte 0xff, a lone LF, a CRLF pair and
  two dashes.
\<close>

theorem file_round_trip_witness:
  "token (js ''XYZ'') \<and> plain (js ''upload'') \<and> plain (js ''a b.bin'')
   \<and> media_type (js ''application/octet-stream'')
   \<and> \<not> sublist (dash_boundary (js ''XYZ''))
         (filter (\<lambda>b. \<not> is_nl b) [0x00, 0x0d, 0xff, 0x0a, 0x58, 0x0d, 0x0a, 0x2d, 0x2d])
   \<and> (\<exists>p. parse (js ''--XYZ'' @ CRLF
            @ js ''Content-Disposition: form-data; name=\"upload\"; filename=\"a b.bin\"'' @ CRLF
            @ js ''Content-Type: application/octet-stream'' @ CRLF @ CRLF
            @ [0x00, 0x0d, 0xff, 0x0a, 0x58, 0x0d, 0x0a, 0x2d, 0x2d] @ CRLF
            @ js ''--XYZ--'' @ CRLF) (js ''XYZ'') = Inr [p]
         \<and> get_prop p (js ''data'') = Some (Buf [0x00, 0x0d, 0xff, 0x0a, 0x58, 0x0d, 0x0a, 0x2d, 0x2d]))"
proof -
  let ?d = "[0x00, 0x0d, 0xff, 0x0a, 0x58, 0x0d, 0x0a, 0x2d, 0x2d] :: nat list"
  have tok: "token (js ''XYZ'')" by (simp add: wf_eval)
  have n: "plain (js ''upload'')" by (simp add: plain_def js_def)
  have f: "plain (js ''a b.bin'')" by (simp add: plain_def js_def)
  have ty: "media_type (js ''application/octet-stream'')"
    by (simp add: media_type_def js_def is_nl_def trim_def is_ws_def)
  have d: "\<not> sublist (dash_boundary (js ''XYZ'')) (filter (\<lambda>b. \<not> is_nl b) ?d)"
    by (simp add: wf_eval)
  have body: "encode (js ''XYZ'')
         [File (file_disposition (js ''upload'') (js ''a b.bin'')) (content_type (js ''application/octet-stream'')) ?d]
       = js ''--XYZ'' @ CRLF
            @ js ''Content-Disposition: form-data; name=\"upload\"; filename=\"a b.bin\"'' @ CRLF
            @ js ''Content-Type: application/octet-stream'' @ CRLF @ CRLF
            @ ?d @ CRLF
            @ js ''--XYZ--'' @ CRLF"
    by (simp add: body_eval file_disposition_def content_type_def js_def)
  from file_round_trip [OF tok n f ty d] tok n f ty d show ?thesis
    unfolding body by blast
qed

end
